theory Spec2Isabelle
  imports Main "HOL-Library.Word" "HOL-Library.Multiset"
begin

section \<open>The rotating file sink of glog (file.go)\<close>

text \<open>
  A shallow embedding of the file logger: the \<open>file\<close> struct is a record, its methods
  are functions that take the record and return the updated one, and every call the code
  makes on the operating system is appended to a log of events carried in the record, so
  that the order of the calls can be stated. What the operating system and the Go
  standard library answer (regular expression matching, \<open>os.Stat\<close>, the random numbers,
  the clock, which call fails) is read from an environment record.
\<close>

subsection \<open>Messages and levels (log.go)\<close>

datatype Level =
  LevelPanic | LevelFatal | LevelError | LevelWarn | LevelInfo | LevelVerbose | LevelDebug | LevelTrace

text \<open>\<open>time.Time\<close> is the number of nanoseconds since the Unix epoch; a
  \<open>time.Duration\<close> is a signed 64-bit number of nanoseconds.\<close>

type_synonym Time = int
type_synonym Duration = "64 word"

record Message =
  Level :: Level
  Filename :: string
  Function :: string
  Line :: int
  Message :: string
  Timestamp :: Time
  Fields :: "(string \<times> string) list"

subsection \<open>Errors, panics and outcomes\<close>

datatype syscall = Create | Open | NewWriterLevel | FileInfoHeader | WriteHeader | Copy | OpenFile

text \<open>A Go \<open>error\<close> value is an \<open>error option\<close>, \<open>None\<close> being \<open>nil\<close>.
  \<open>fs.SkipDir\<close> is an error value like the others.\<close>

datatype error =
  SkipDir
  | LstatError string
  | ReadDirError string
  | InfoError string
  | SysError syscall string

datatype panic =
  NilDereference
  | PatternContainsPathSeparator
  | SendOnClosedChannel
  | CloseOfClosedChannel
  | RotateFailed error

text \<open>A call either returns, or panics, or blocks for ever on a full channel.\<close>

datatype 'a go = Returns 'a | Panics panic | Blocks

subsection \<open>The operating system as the sink sees it\<close>

record FileInfo =
  InfoName :: string
  ModTime :: Time
  Size :: int

text \<open>A directory entry; \<open>Info\<close> is \<open>None\<close> when \<open>d.Info()\<close> returns an error.\<close>

record DirEntry =
  Name :: string
  IsDir :: bool
  Info :: "FileInfo option"

text \<open>What \<open>filepath.WalkDir\<close> finds under a root: each node carries the path handed to
  the callback, its entry, whether \<open>os.ReadDir\<close> on it reports an error, and the entries
  \<open>os.ReadDir\<close> returned (in lexical order).\<close>

datatype tree = Node string DirEntry bool "tree list"

datatype statres = StatOk | StatNotExist | StatOtherError

datatype regex = DefaultFnRegex | PatternRegex string

datatype namefmt = DefaultFnFormatter | PatternFormatter string string

record logfile =
  timestamp :: int
  lfilename :: string

text \<open>An open \<open>*os.File\<close>: the name it was opened with and whether \<open>Close\<close> was called
  on it.\<close>

record osfile =
  fname :: string
  fclosed :: bool

datatype channel = ChCloseNotify | ChMessages

datatype open_flag = O_WRONLY | O_APPEND | O_CREATE

datatype event =
  EvFileClose string
  | EvFileWrite string string nat
  | EvOpenFile string "open_flag list" nat
  | EvCreate string
  | EvOpen string
  | EvWriteHeader string FileInfo
  | EvCopy string string
  | EvRemove string
  | EvTarClose string
  | EvGzipFlush string
  | EvGzipClose string
  | EvSleepSecond
  | EvCloseChan channel
  | EvGoSweep

text \<open>The calls the sink makes, as a log (the bytes of a write come with the count the
  call returned), and the answers of the operating system and the libraries: \<open>fails\<close>
  says which calls return an error, \<open>WriteN\<close> how many bytes a write on an open file
  takes, \<open>Lstat\<close> what \<open>filepath.WalkDir\<close> finds at a root (\<open>None\<close> when \<open>os.Lstat\<close>
  fails).\<close>

record env =
  MatchString :: "regex \<Rightarrow> string \<Rightarrow> bool"
  Stat :: "string \<Rightarrow> statres"
  Join :: "string \<Rightarrow> string \<Rightarrow> string"
  Int31 :: "nat \<Rightarrow> 31 word"
  Runes :: "string \<Rightarrow> nat list"
  defaultFnFormatter :: string
  TextFormatter :: "Message \<Rightarrow> string"
  ErrorText :: "error \<Rightarrow> string"
  fails :: "syscall \<Rightarrow> string \<Rightarrow> bool"
  WriteN :: "event list \<Rightarrow> string \<Rightarrow> string \<Rightarrow> nat"
  Now :: Time
  Lstat :: "string \<Rightarrow> tree option"
  Sort :: "logfile list \<Rightarrow> logfile list"

subsection \<open>The sink\<close>

text \<open>The fields of \<open>type file struct\<close> (\<open>file\<close> is a keyword of Isabelle, so the
  record is \<open>file_logger\<close> and the field \<open>file\<close> is \<open>file'\<close>). A channel is its queue and whether it has been
  closed; \<open>closeNotify\<close> carries no values, so only the flag is kept. \<open>trace\<close> is not a
  field of the struct: it is the log of the operating-system calls made so far.\<close>

record file_logger =
  level :: Level
  path :: string
  sweepPolicy :: string
  sweepInterval :: Duration
  sweepFileCount :: int
  rotatePolicy :: string
  rotateDuration :: Duration
  rotateFileSize :: "64 word"
  filesize :: "64 word"
  filename :: string
  file' :: "osfile option"
  format :: namefmt
  fnregex :: regex
  buf :: string
  formatter :: "(Message \<Rightarrow> string) option"
  messages :: "Message option list"
  messagesClosed :: bool
  closeNotify :: bool
  closed :: "32 word"
  trace :: "event list"

definition RotateByDuration :: string where "RotateByDuration = ''RotateByDuration''"
definition RotateBySize :: string where "RotateBySize = ''RotateBySize''"
definition SweepByFileCount :: string where "SweepByFileCount = ''SweepByFileCount''"
definition SweepByInterval :: string where "SweepByInterval = ''SweepByInterval''"

definition defaultCacheSize :: nat where "defaultCacheSize = 2 * 2 ^ 10"

definition BufferCapacity :: nat where "BufferCapacity = 8"

definition Minute :: Duration where "Minute = 60 * 1000000000"

subsection \<open>Format, write and flush\<close>

text \<open>The unexported method \<open>write\<close> is \<open>write'\<close> here, \<open>write\<close> being a keyword.\<close>

text \<open>\<open>(*os.File).Write\<close> returns the number of bytes written and an error, which
  every caller in this file drops. On a closed handle nothing is written and the count is 0.
  On an open one the operating system decides how many of the bytes it takes:
  \<open>WriteN e tr name bytes\<close> is its answer after the calls \<open>tr\<close>, and the count returned
  is never more than the number of bytes passed. A short or failed write is a count below
  that number. The event records the file, the bytes passed and the count returned.\<close>

definition write_count :: "env \<Rightarrow> event list \<Rightarrow> osfile \<Rightarrow> string \<Rightarrow> nat" where
  "write_count e tr h bytes = min (WriteN e tr (fname h) bytes) (length bytes)"

definition file_Write :: "env \<Rightarrow> event list \<Rightarrow> osfile \<Rightarrow> string \<Rightarrow> nat \<times> event list" where
  "file_Write e tr h bytes =
     (if fclosed h then (0, [])
      else (write_count e tr h bytes,
            [EvFileWrite (fname h) bytes (write_count e tr h bytes)]))"

definition Format :: "env \<Rightarrow> file_logger \<Rightarrow> Message \<Rightarrow> string \<times> file_logger" where
  "Format e f msg =
     (case formatter f of
        None \<Rightarrow> (TextFormatter e msg, f\<lparr>formatter := Some (TextFormatter e)\<rparr>)
      | Some fm \<Rightarrow> (fm msg, f))"

definition flush_to :: "env \<Rightarrow> osfile \<Rightarrow> file_logger \<Rightarrow> file_logger" where
  "flush_to e h f =
     (let (n, evs) = file_Write e (trace f) h (buf f)
      in f\<lparr>filesize := filesize f + of_nat n, buf := [], trace := trace f @ evs\<rparr>)"

definition write' :: "env \<Rightarrow> file_logger \<Rightarrow> Message option \<Rightarrow> file_logger" where
  "write' e f m =
     (case m of
        None \<Rightarrow> f
      | Some msg \<Rightarrow>
          (let (msgstr, f1) = Format e f msg;
               f2 = (if length msgstr + length (buf f1) \<ge> defaultCacheSize \<and> file' f1 \<noteq> None
                     then flush_to e (the (file' f1)) f1 else f1)
           in f2\<lparr>buf := buf f2 @ msgstr @ [CHR 0x0A]\<rparr>))"

definition flush :: "env \<Rightarrow> file_logger \<Rightarrow> file_logger" where
  "flush e f = (case file' f of Some h \<Rightarrow> flush_to e h f | None \<Rightarrow> f)"

text \<open>The block \<open>if f.file != nil { f.file.Close() }\<close> of \<open>rotate\<close> and \<open>Close\<close>: the
  field keeps the handle, which is closed from then on.\<close>

definition close_file :: "file_logger \<Rightarrow> file_logger" where
  "close_file f =
     (case file' f of
        Some h \<Rightarrow> f\<lparr>file' := Some (h\<lparr>fclosed := True\<rparr>),
                    trace := trace f @ [EvFileClose (fname h)]\<rparr>
      | None \<Rightarrow> f)"

text \<open>The text the sink's formatter produces for a message.\<close>

definition formatted :: "env \<Rightarrow> file_logger \<Rightarrow> Message \<Rightarrow> string" where
  "formatted e f msg = fst (Format e f msg)"

text \<open>The bytes that reached the file called \<open>name\<close>, read off a log of events: of
  each write, as many of the bytes passed as the count returned.\<close>

fun written :: "string \<Rightarrow> event list \<Rightarrow> string" where
  "written name [] = []"
| "written name (EvFileWrite n bytes c # evs) =
     (if n = name then take c bytes @ written name evs else written name evs)"
| "written name (_ # evs) = written name evs"

text \<open>The bytes handed to the writes on the file called \<open>name\<close>, whatever they returned.\<close>

fun passed :: "string \<Rightarrow> event list \<Rightarrow> string" where
  "passed name [] = []"
| "passed name (EvFileWrite n bytes c # evs) =
     (if n = name then bytes @ passed name evs else passed name evs)"
| "passed name (_ # evs) = passed name evs"

subsection \<open>Strings (package strings, fmt)\<close>

definition HasSuffix :: "string \<Rightarrow> string \<Rightarrow> bool" where
  "HasSuffix s suffix =
     (length suffix \<le> length s \<and> drop (length s - length suffix) s = suffix)"

definition TrimSuffix :: "string \<Rightarrow> string \<Rightarrow> string" where
  "TrimSuffix s suffix = (if HasSuffix s suffix then take (length s - length suffix) s else s)"

text \<open>\<open>strings.LastIndexByte\<close>; \<open>None\<close> is Go's \<open>-1\<close>.\<close>

fun LastIndexByte :: "string \<Rightarrow> char \<Rightarrow> nat option" where
  "LastIndexByte [] c = None"
| "LastIndexByte (x # xs) c =
     (case LastIndexByte xs c of
        Some i \<Rightarrow> Some (Suc i)
      | None \<Rightarrow> if x = c then Some 0 else None)"

text \<open>The verb \<open>%d\<close> on a number that is not negative.\<close>

function Itoa :: "nat \<Rightarrow> string" where
  "Itoa n =
     (if n < 10 then [''0123456789'' ! n] else Itoa (n div 10) @ [''0123456789'' ! (n mod 10)])"
  by pat_completeness auto
termination
  by (relation "measure id") auto

subsection \<open>The option Path and the naming policy\<close>

text \<open>Lines 118 to 128 of \<open>Path\<close>: the pattern is cut at its last \<open>*\<close>, and the suffix is
  made to end in \<open>.log\<close>.\<close>

definition Path_affixes :: "string \<Rightarrow> string \<times> string" where
  "Path_affixes pattern =
     (let (prefix, suffix) =
            (case LastIndexByte pattern (CHR ''*'') of
               Some index \<Rightarrow> (take index pattern, drop (index + 1) pattern)
             | None \<Rightarrow> (pattern, []))
      in (prefix, if HasSuffix suffix ''.log'' then suffix else suffix @ ''.log''))"

text \<open>The option itself. The loop over the pattern ranges over its code points (given by
  the environment) and tests the low eight bits of each against the path separator.\<close>

definition Path :: "env \<Rightarrow> string \<Rightarrow> string list \<Rightarrow> file_logger \<Rightarrow> file_logger go" where
  "Path e p patterns f =
     (let f1 = f\<lparr>path := p\<rparr>
      in case patterns of
           [] \<Rightarrow> Returns (f1\<lparr>format := DefaultFnFormatter, fnregex := DefaultFnRegex\<rparr>)
         | pattern # _ \<Rightarrow>
             if \<exists>ch \<in> set (Runes e pattern). ch mod 256 = 47
             then Panics PatternContainsPathSeparator
             else (let (prefix, suffix) = Path_affixes pattern
                   in Returns (f1\<lparr>fnregex := PatternRegex
                                    (prefix @ [CHR 0x5C] @ ''d+'' @ TrimSuffix suffix ''log''
                                       @ [CHR 0x5C] @ ''.tgz''),
                                  format := PatternFormatter prefix suffix\<rparr>)))"

text \<open>The closure stored in \<open>f.format\<close> (lines 131 to 143): the loop \<open>for try < 100\<close>.
  The \<open>try\<close>-th call of \<open>rand.Int31\<close> after the seeding is \<open>Int31 e try\<close>. The result
  is the name returned and the value of \<open>try\<close> at the return.\<close>

function Path_format_loop :: "env \<Rightarrow> string \<Rightarrow> string \<Rightarrow> string \<Rightarrow> nat \<Rightarrow> string \<times> nat" where
  "Path_format_loop e dir prefix suffix try =
     (if try < 100
      then (let name = prefix @ Itoa (unat (Int31 e try)) @ suffix
            in if Stat e (Join e dir name) = StatNotExist
               then (name, try)
               else Path_format_loop e dir prefix suffix (try + 1))
      else ([], try))"
  by pat_completeness auto
termination
  by (relation "measure (\<lambda>(e, dir, prefix, suffix, try). 100 - try)") auto

definition Path_format :: "env \<Rightarrow> string \<Rightarrow> string \<Rightarrow> string \<Rightarrow> string" where
  "Path_format e dir prefix suffix = fst (Path_format_loop e dir prefix suffix 0)"

text \<open>The number of names the closure has tried when it returns.\<close>

definition Path_format_attempts :: "env \<Rightarrow> string \<Rightarrow> string \<Rightarrow> string \<Rightarrow> nat" where
  "Path_format_attempts e dir prefix suffix =
     (case Path_format_loop e dir prefix suffix 0 of
        (name, try) \<Rightarrow> if name = [] then try else try + 1)"

text \<open>\<open>f.format()\<close>: the closure reads \<open>f.path\<close> when it is called.\<close>

definition call_format :: "env \<Rightarrow> file_logger \<Rightarrow> string" where
  "call_format e f =
     (case format f of
        DefaultFnFormatter \<Rightarrow> defaultFnFormatter e
      | PatternFormatter prefix suffix \<Rightarrow> Path_format e (path f) prefix suffix)"

subsection \<open>filepath.WalkDir\<close>

text \<open>The library's walk, for a callback with a state \<open>'s\<close>: the callback gets the path,
  the entry (\<open>None\<close> is the nil entry of a failed \<open>os.Lstat\<close> of the root) and the error
  of the walk.\<close>

type_synonym 's WalkDirFunc =
  "string \<Rightarrow> DirEntry option \<Rightarrow> error option \<Rightarrow> 's \<Rightarrow> (error option \<times> 's) go"

fun walkDir :: "'s WalkDirFunc \<Rightarrow> tree \<Rightarrow> 's \<Rightarrow> (error option \<times> 's) go"
  and walkDirs :: "'s WalkDirFunc \<Rightarrow> tree list \<Rightarrow> 's \<Rightarrow> (error option \<times> 's) go" where
  "walkDir fn (Node p d readerr dirs) s =
     (case fn p (Some d) None s of
        Panics pn \<Rightarrow> Panics pn
      | Blocks \<Rightarrow> Blocks
      | Returns (err, s1) \<Rightarrow>
          if err \<noteq> None \<or> \<not> IsDir d
          then Returns (if err = Some SkipDir \<and> IsDir d then None else err, s1)
          else (case (if readerr then fn p (Some d) (Some (ReadDirError p)) s1
                      else Returns (None, s1)) of
                  Panics pn \<Rightarrow> Panics pn
                | Blocks \<Rightarrow> Blocks
                | Returns (err2, s2) \<Rightarrow>
                    if err2 \<noteq> None
                    then Returns (if err2 = Some SkipDir \<and> IsDir d then None else err2, s2)
                    else walkDirs fn dirs s2))"
| "walkDirs fn [] s = Returns (None, s)"
| "walkDirs fn (t # ts) s =
     (case walkDir fn t s of
        Panics pn \<Rightarrow> Panics pn
      | Blocks \<Rightarrow> Blocks
      | Returns (err, s1) \<Rightarrow>
          (case err of
             None \<Rightarrow> walkDirs fn ts s1
           | Some er \<Rightarrow> if er = SkipDir then Returns (None, s1) else Returns (Some er, s1)))"

definition WalkDir :: "env \<Rightarrow> 's WalkDirFunc \<Rightarrow> string \<Rightarrow> 's \<Rightarrow> (error option \<times> 's) go" where
  "WalkDir e fn root s =
     (case (case Lstat e root of
              None \<Rightarrow> fn root None (Some (LstatError root)) s
            | Some (Node p d readerr dirs) \<Rightarrow> walkDir fn (Node root d readerr dirs) s) of
        Panics pn \<Rightarrow> Panics pn
      | Blocks \<Rightarrow> Blocks
      | Returns (err, s1) \<Rightarrow> Returns (if err = Some SkipDir then None else err, s1))"


subsection \<open>compress\<close>

text \<open>The callback of \<open>compress\<close>. Its state is the log of calls. The deferred calls
  are kept on a stack (a list, the last deferred first) and run wherever the callback
  returns. \<open>tar.FileInfoHeader\<close> copies the name, the modification time and the size of
  the file into the header, so the header written is the \<open>FileInfo\<close> itself.\<close>

definition compress_visit :: "env \<Rightarrow> file_logger \<Rightarrow> event list WalkDirFunc" where
  "compress_visit e f p entry err tr =
     (case entry of
        None \<Rightarrow> Panics NilDereference
      | Some d \<Rightarrow>
          if IsDir d \<or> filename f = Name d then Returns (None, tr)
          else if HasSuffix p ''.log'' then
            (case Info d of
               None \<Rightarrow> Returns (Some (InfoError p), tr)
             | Some info \<Rightarrow>
                (let gzfilename = take (length p - 4) p @ ''.tgz''
                 in if fails e Create gzfilename
                    then Returns (Some (SysError Create gzfilename), tr)
                    else
                 (let tr1 = tr @ [EvCreate gzfilename];
                      defers1 = [EvFileClose gzfilename]
                  in if fails e Open p
                     then Returns (Some (SysError Open p), tr1 @ defers1)
                     else
                 (let tr2 = tr1 @ [EvOpen p];
                      defers2 = EvFileClose p # defers1
                  in if fails e NewWriterLevel gzfilename
                     then Returns (Some (SysError NewWriterLevel gzfilename), tr2 @ defers2)
                     else
                 (let defers3 = [EvGzipFlush gzfilename, EvGzipClose gzfilename] @ defers2;
                      defers4 = EvTarClose gzfilename # defers3
                  in if fails e FileInfoHeader p
                     then Returns (Some (SysError FileInfoHeader p), tr2 @ defers4)
                     else if fails e WriteHeader gzfilename
                     then Returns (Some (SysError WriteHeader gzfilename), tr2 @ defers4)
                     else
                 (let tr3 = tr2 @ [EvWriteHeader gzfilename info]
                  in if fails e Copy p
                     then Returns (Some (SysError Copy p), tr3 @ defers4)
                     else Returns (None, tr3 @ [EvCopy p gzfilename, EvRemove p] @ defers4)))))))
          else Returns (None, tr))"

definition compress :: "env \<Rightarrow> file_logger \<Rightarrow> (error option \<times> file_logger) go" where
  "compress e f =
     (case WalkDir e (compress_visit e f) (path f) (trace f) of
        Panics pn \<Rightarrow> Panics pn
      | Blocks \<Rightarrow> Blocks
      | Returns (err, tr) \<Rightarrow> Returns (err, f\<lparr>trace := tr\<rparr>))"

subsection \<open>rotate\<close>

text \<open>The call \<open>os.OpenFile(fname, os.O_WRONLY|os.O_APPEND|os.O_CREATE, 0660)\<close>.\<close>

definition open_event :: "string \<Rightarrow> event" where
  "open_event name = EvOpenFile name [O_WRONLY, O_APPEND, O_CREATE] 432"

definition error_message :: "env \<Rightarrow> error \<Rightarrow> Message" where
  "error_message e err =
     \<lparr>Level = LevelError, Filename = [], Function = [], Line = 0,
      Message = ErrorText e err, Timestamp = Now e, Fields = []\<rparr>"

definition rotate :: "env \<Rightarrow> file_logger \<Rightarrow> (error option \<times> file_logger) go" where
  "rotate e f =
     (let f1 = close_file f
      in case compress e f1 of
           Panics pn \<Rightarrow> Panics pn
         | Blocks \<Rightarrow> Blocks
         | Returns (err, f2) \<Rightarrow>
            (let f3 = (case err of
                         Some er \<Rightarrow> write' e f2 (Some (error_message e er))
                       | None \<Rightarrow> f2);
                 f4 = f3\<lparr>filesize := 0\<rparr>;
                 f5 = f4\<lparr>filename := call_format e f4\<rparr>;
                 f6 = (if filename f5 = [] then f5\<lparr>filename := defaultFnFormatter e\<rparr> else f5);
                 name = path f6 @ ''/'' @ filename f6
             in if fails e OpenFile name
                then Returns (Some (SysError OpenFile name), f6\<lparr>file' := None\<rparr>)
                else Returns (None, f6\<lparr>file' := Some \<lparr>fname = name, fclosed = False\<rparr>,
                                        trace := trace f6 @ [open_event name]\<rparr>)))"

subsection \<open>sweep\<close>

text \<open>\<open>Time.Unix\<close>: whole seconds since the epoch.\<close>

definition Unix :: "Time \<Rightarrow> int" where
  "Unix t = t div 1000000000"

text \<open>The methods of \<open>byTimestamp\<close>.\<close>

definition Len :: "logfile list \<Rightarrow> nat" where
  "Len bts = length bts"

definition Less :: "logfile list \<Rightarrow> nat \<Rightarrow> nat \<Rightarrow> bool" where
  "Less bts i j = (timestamp (bts ! i) > timestamp (bts ! j))"

definition Swap :: "logfile list \<Rightarrow> nat \<Rightarrow> nat \<Rightarrow> logfile list" where
  "Swap bts i j = bts[i := bts ! j, j := bts ! i]"

text \<open>\<open>sort.Sort\<close> belongs to the Go library and is read from the environment. On a
  slice of at most 12 elements it is the library's insertion sort, which drives the
  methods above as follows: for each \<open>i\<close> from 1, the element at \<open>i\<close> is swapped
  downwards while it is \<open>Less\<close> than its left neighbour.\<close>

fun insertion_inner :: "logfile list \<Rightarrow> nat \<Rightarrow> logfile list" where
  "insertion_inner bts 0 = bts"
| "insertion_inner bts (Suc j) =
     (if Less bts (Suc j) j then insertion_inner (Swap bts (Suc j) j) j else bts)"

definition insertionSort :: "logfile list \<Rightarrow> logfile list" where
  "insertionSort bts = foldl insertion_inner bts [1 ..< Len bts]"

text \<open>The test on the path in the callback of \<open>sweep\<close>.\<close>

definition recognized :: "env \<Rightarrow> file_logger \<Rightarrow> string \<Rightarrow> bool" where
  "recognized e f p =
     (MatchString e (fnregex f) p
      \<or> (fnregex f \<noteq> DefaultFnRegex \<and> MatchString e DefaultFnRegex p))"

text \<open>The callback of \<open>sweep\<close>. Its state is the slice \<open>files\<close> and the log of calls.\<close>

definition sweep_visit ::
  "env \<Rightarrow> file_logger \<Rightarrow> Time \<Rightarrow> (logfile list \<times> event list) WalkDirFunc" where
  "sweep_visit e f tm p entry err s =
     (if err \<noteq> None then Returns (Some SkipDir, s)
      else if p = path f then Returns (None, s)
      else case entry of
        None \<Rightarrow> Panics NilDereference
      | Some d \<Rightarrow>
          if IsDir d then Returns (Some SkipDir, s)
          else if recognized e f p then
            (case Info d of
               Some fi \<Rightarrow>
                 if sweepPolicy f = SweepByInterval then
                   (if tm < ModTime fi + sint (sweepInterval f)
                    then Returns (None, (fst s, snd s @ [EvRemove p]))
                    else Returns (None, s))
                 else if sweepPolicy f = SweepByFileCount then
                   Returns (None, (fst s @ [\<lparr>timestamp = Unix (ModTime fi), lfilename = p\<rparr>], snd s))
                 else Returns (None, s)
             | None \<Rightarrow> Returns (None, s))
          else Returns (None, s))"

text \<open>\<open>sweep\<close> runs in a goroutine of its own: the result is the log of its calls.\<close>

definition sweep :: "env \<Rightarrow> file_logger \<Rightarrow> event list go" where
  "sweep e f =
     (let tm = Now e
      in case WalkDir e (sweep_visit e f tm) (path f) ([], []) of
           Panics pn \<Rightarrow> Panics pn
         | Blocks \<Rightarrow> Blocks
         | Returns (err, (files, evs)) \<Rightarrow>
             if int (length files) > sweepFileCount f \<and> sweepFileCount f > 0
             then (let sorted = Sort e files
                   in Returns (evs @ map (\<lambda>lf. EvRemove (lfilename lf))
                                         (drop (nat (sweepFileCount f)) sorted)))
             else Returns evs)"


subsection \<open>The background loop\<close>

datatype loop_event = Received "Message option" | Tick | CloseNotified

text \<open>The rotation test of the ticker case, on the counter already advanced; both
  comparisons are signed.\<close>

definition rotation_due :: "file_logger \<Rightarrow> Duration \<Rightarrow> bool" where
  "rotation_due f elapse =
     ((rotatePolicy f = RotateBySize \<and> sint (rotateFileSize f) \<le> sint (filesize f))
      \<or> (rotatePolicy f = RotateByDuration \<and> sint (rotateDuration f) \<le> sint elapse))"

text \<open>One turn of the \<open>select\<close> in \<open>run\<close>; the flag says whether the loop goes on.\<close>

definition run_step ::
  "env \<Rightarrow> loop_event \<Rightarrow> file_logger \<times> Duration \<Rightarrow> (bool \<times> file_logger \<times> Duration) go" where
  "run_step e ev s =
     (case s of (f, elapse) \<Rightarrow>
        (case ev of
           Received msg \<Rightarrow> Returns (True, write' e f msg, elapse)
         | Tick \<Rightarrow>
             (let elapse1 = elapse + Minute
              in if rotation_due f elapse1
                 then (case rotate e f of
                         Panics pn \<Rightarrow> Panics pn
                       | Blocks \<Rightarrow> Blocks
                       | Returns (_, f1) \<Rightarrow>
                           Returns (True, f1\<lparr>trace := trace f1 @ [EvGoSweep]\<rparr>, 0))
                 else Returns (True, f, elapse1))
         | CloseNotified \<Rightarrow> Returns (False, f, elapse)))"

text \<open>The start of \<open>run\<close>: the first rotation, which panics on an error.\<close>

definition run_start :: "env \<Rightarrow> file_logger \<Rightarrow> (file_logger \<times> Duration) go" where
  "run_start e f =
     (case rotate e f of
        Panics pn \<Rightarrow> Panics pn
      | Blocks \<Rightarrow> Blocks
      | Returns (err, f1) \<Rightarrow>
          (case err of Some er \<Rightarrow> Panics (RotateFailed er) | None \<Rightarrow> Returns (f1, 0)))"

subsection \<open>Write and Close\<close>

definition Write :: "file_logger \<Rightarrow> Message option \<Rightarrow> file_logger go" where
  "Write f msg =
     (if closed f = 1 then Returns f
      else if messagesClosed f then Panics SendOnClosedChannel
      else if BufferCapacity \<le> length (messages f) then Blocks
      else Returns (f\<lparr>messages := messages f @ [msg]\<rparr>))"

text \<open>\<open>Close\<close> in its two parts: the call
  \<open>atomic.CompareAndSwapUint32(&f.closed, 0, 1)\<close>, which is one atomic step and yields
  whether it swapped, and the teardown that follows a successful swap.\<close>

definition Close_cas :: "file_logger \<Rightarrow> bool \<times> file_logger" where
  "Close_cas f = (if closed f = 0 then (True, f\<lparr>closed := 1\<rparr>) else (False, f))"

definition Close_teardown :: "env \<Rightarrow> file_logger \<Rightarrow> (error option \<times> file_logger) go" where
  "Close_teardown e f =
     (let f1 = f\<lparr>trace := trace f @ [EvSleepSecond]\<rparr>
      in if closeNotify f1 then Panics CloseOfClosedChannel
         else
     (let f2 = f1\<lparr>closeNotify := True, trace := trace f1 @ [EvCloseChan ChCloseNotify]\<rparr>
      in if messagesClosed f2 then Panics CloseOfClosedChannel
         else
     (let f3 = f2\<lparr>messagesClosed := True, trace := trace f2 @ [EvCloseChan ChMessages]\<rparr>;
          f4 = flush e f3;
          f5 = close_file f4
      in Returns (None, f5))))"

definition Close :: "env \<Rightarrow> file_logger \<Rightarrow> (error option \<times> file_logger) go" where
  "Close e f =
     (case Close_cas f of
        (False, f1) \<Rightarrow> Returns (None, f1)
      | (True, f1) \<Rightarrow> Close_teardown e f1)"

text \<open>A caller's sequence of calls on the sink.\<close>

datatype call = CallWrite "Message option" | CallClose

definition apply_call :: "env \<Rightarrow> file_logger \<Rightarrow> call \<Rightarrow> file_logger go" where
  "apply_call e f c =
     (case c of
        CallWrite msg \<Rightarrow> Write f msg
      | CallClose \<Rightarrow>
          (case Close e f of
             Panics pn \<Rightarrow> Panics pn
           | Blocks \<Rightarrow> Blocks
           | Returns (_, f1) \<Rightarrow> Returns f1))"

fun run_calls :: "env \<Rightarrow> file_logger \<Rightarrow> call list \<Rightarrow> file_logger go" where
  "run_calls e f [] = Returns f"
| "run_calls e f (c # cs) =
     (case apply_call e f c of
        Panics pn \<Rightarrow> Panics pn
      | Blocks \<Rightarrow> Blocks
      | Returns f1 \<Rightarrow> run_calls e f1 cs)"

text \<open>How often a log of calls closes the channel \<open>messages\<close>, which the teardown of
  \<open>Close\<close> does once.\<close>

definition teardowns :: "event list \<Rightarrow> nat" where
  "teardowns evs = length (filter (\<lambda>ev. ev = EvCloseChan ChMessages) evs)"

text \<open>Several goroutines inside \<open>Close\<close> at once. Each is before its compare-and-swap,
  or has swapped and is before its teardown, or has returned; a schedule names the
  goroutine that takes the next step on the shared sink.\<close>

datatype pc = BeforeCAS | BeforeTeardown | Returned

definition conc_step ::
  "env \<Rightarrow> nat \<Rightarrow> file_logger \<times> pc list \<Rightarrow> (file_logger \<times> pc list) go" where
  "conc_step e i s =
     (case s of (f, pcs) \<Rightarrow>
        if i < length pcs then
          (case pcs ! i of
             BeforeCAS \<Rightarrow>
               (case Close_cas f of
                  (True, f1) \<Rightarrow> Returns (f1, pcs[i := BeforeTeardown])
                | (False, f1) \<Rightarrow> Returns (f1, pcs[i := Returned]))
           | BeforeTeardown \<Rightarrow>
               (case Close_teardown e f of
                  Panics pn \<Rightarrow> Panics pn
                | Blocks \<Rightarrow> Blocks
                | Returns (_, f1) \<Rightarrow> Returns (f1, pcs[i := Returned]))
           | Returned \<Rightarrow> Returns (f, pcs))
        else Returns (f, pcs))"

fun conc_run ::
  "env \<Rightarrow> nat list \<Rightarrow> file_logger \<times> pc list \<Rightarrow> (file_logger \<times> pc list) go" where
  "conc_run e [] s = Returns s"
| "conc_run e (i # sched) s =
     (case conc_step e i s of
        Panics pn \<Rightarrow> Panics pn
      | Blocks \<Rightarrow> Blocks
      | Returns s1 \<Rightarrow> conc_run e sched s1)"


subsection \<open>A concrete environment and sink\<close>

text \<open>An environment in which no call of the table \<open>fails\<close> fails and every write is
  complete: every path ending in \<open>.tgz\<close> matches the patterns, no file exists at a name
  the naming policy tries, the text formatter prints the text of the message, and
  \<open>sort.Sort\<close> is the insertion sort. \<open>os.Lstat\<close> finds no directory here; the
  environments below put one in place.\<close>

definition env0 :: env where
  "env0 =
     \<lparr>MatchString = (\<lambda>r p. HasSuffix p ''.tgz''),
      Stat = (\<lambda>p. StatNotExist),
      Join = (\<lambda>d n. d @ ''/'' @ n),
      Int31 = (\<lambda>k. of_nat k),
      Runes = map of_char,
      defaultFnFormatter = ''glog-2026-01-01T000000.log'',
      TextFormatter = Message,
      ErrorText = (\<lambda>err. ''error''),
      fails = (\<lambda>c p. False),
      WriteN = (\<lambda>tr name bytes. length bytes),
      Now = 0,
      Lstat = (\<lambda>p. None),
      Sort = insertionSort\<rparr>"

definition sink0 :: file_logger where
  "sink0 =
     \<lparr>level = LevelDebug, path = ''logs'', sweepPolicy = SweepByFileCount,
      sweepInterval = 604800000000000, sweepFileCount = 5,
      rotatePolicy = RotateByDuration, rotateDuration = 86400000000000,
      rotateFileSize = 52428800, filesize = 0, filename = ''app-1.log'',
      file' = Some \<lparr>fname = ''logs/app-1.log'', fclosed = False\<rparr>,
      format = DefaultFnFormatter, fnregex = DefaultFnRegex, buf = [],
      formatter = None, messages = [], messagesClosed = False, closeNotify = False,
      closed = 0, trace = []\<rparr>"

definition msg0 :: Message where
  "msg0 = \<lparr>Level = LevelInfo, Filename = [], Function = [], Line = 0,
           Message = ''started'', Timestamp = 0, Fields = []\<rparr>"

text \<open>An environment in which the operating system takes only three bytes of every write
  (a full disk, an interrupted call), and a message of 2047 bytes.\<close>

definition env_short :: env where
  "env_short = env0\<lparr>WriteN := (\<lambda>tr name bytes. 3)\<rparr>"

definition msg_long :: Message where
  "msg_long = msg0\<lparr>Message := replicate 2047 (CHR ''x'')\<rparr>"

text \<open>The sink with 2047 bytes waiting in its buffer.\<close>

definition sink_full :: file_logger where
  "sink_full = sink0\<lparr>buf := replicate 2047 (CHR ''x'')\<rparr>"

text \<open>The same sink when its handle is not nil but closed, as it is inside \<open>rotate\<close>
  between the close of the old file and the opening of the new one.\<close>

definition sink_full_closed :: file_logger where
  "sink_full_closed = sink_full\<lparr>file' := Some \<lparr>fname = ''logs/app-1.log'', fclosed = True\<rparr>\<rparr>"

text \<open>The record a message adds to the log: nothing for a nil message, the formatted
  text and one newline otherwise.\<close>

definition record_of :: "env \<Rightarrow> file_logger \<Rightarrow> Message option \<Rightarrow> string" where
  "record_of e f m = (case m of None \<Rightarrow> [] | Some msg \<Rightarrow> formatted e f msg @ [CHR 0x0A])"

text \<open>The name the closure of \<open>Path\<close> builds at its \<open>k\<close>-th attempt.\<close>

definition candidate :: "env \<Rightarrow> string \<Rightarrow> string \<Rightarrow> nat \<Rightarrow> string" where
  "candidate e prefix suffix k = prefix @ Itoa (unat (Int31 e k)) @ suffix"

text \<open>Two directories for the naming policy: one where only \<open>test-0.log\<close> exists, one where
  a file exists at every name.\<close>

definition env_taken :: env where
  "env_taken = env0\<lparr>Stat := (\<lambda>p. if p = ''logs/test-0.log'' then StatOk else StatNotExist)\<rparr>"

definition env_all_taken :: env where
  "env_all_taken = env0\<lparr>Stat := (\<lambda>p. StatOk)\<rparr>"

text \<open>The states \<open>Write\<close> and \<open>Close\<close> can meet: the channels are closed by \<open>Close\<close>
  alone, after it has set the flag.\<close>

definition channels_consistent :: "file_logger \<Rightarrow> bool" where
  "channels_consistent f =
     ((closed f = 0 \<and> \<not> closeNotify f \<and> \<not> messagesClosed f) \<or> closed f = 1)"

text \<open>The calls of the teardown in \<open>Close\<close>: the grace wait, the two channels, the flush
  (a \<open>Write\<close> reaches the file only if the handle is still open) and the close of the
  file.\<close>

definition teardown_events :: "env \<Rightarrow> file_logger \<Rightarrow> event list" where
  "teardown_events e f =
     [EvSleepSecond, EvCloseChan ChCloseNotify, EvCloseChan ChMessages]
     @ (case file' f of
          Some h \<Rightarrow>
            (if fclosed h then []
             else [EvFileWrite (fname h) (buf f)
                     (write_count e
                        (trace f @ [EvSleepSecond, EvCloseChan ChCloseNotify,
                                    EvCloseChan ChMessages]) h (buf f))])
            @ [EvFileClose (fname h)]
        | None \<Rightarrow> [])"

text \<open>The name \<open>rotate\<close> gives the new file, and the path it opens.\<close>

definition next_filename :: "env \<Rightarrow> file_logger \<Rightarrow> string" where
  "next_filename e f =
     (if call_format e f = [] then defaultFnFormatter e else call_format e f)"

definition next_path :: "env \<Rightarrow> file_logger \<Rightarrow> string" where
  "next_path e f = path f @ ''/'' @ next_filename e f"

text \<open>Concrete directories. \<open>logs_one\<close> holds one rotated log file beside the active
  one; \<open>logs_two\<close> holds two. In \<open>env_two_fail\<close> the archive of the first cannot be
  created.\<close>

definition file_entry :: "string \<Rightarrow> Time \<Rightarrow> DirEntry" where
  "file_entry n t =
     \<lparr>Name = n, IsDir = False, Info = Some \<lparr>InfoName = n, ModTime = t, Size = 10\<rparr>\<rparr>"

definition file_node :: "string \<Rightarrow> string \<Rightarrow> Time \<Rightarrow> tree" where
  "file_node dir n t = Node (dir @ ''/'' @ n) (file_entry n t) False []"

definition dir_entry :: "string \<Rightarrow> DirEntry" where
  "dir_entry n =
     \<lparr>Name = n, IsDir = True, Info = Some \<lparr>InfoName = n, ModTime = 0, Size = 0\<rparr>\<rparr>"

definition logs_one :: tree where
  "logs_one =
     Node ''logs'' (dir_entry ''logs'') False
       [file_node ''logs'' ''a.log'' 1, file_node ''logs'' ''app-1.log'' 2]"

definition logs_two :: tree where
  "logs_two =
     Node ''logs'' (dir_entry ''logs'') False
       [file_node ''logs'' ''a.log'' 1, file_node ''logs'' ''app-1.log'' 2,
        file_node ''logs'' ''b.log'' 3]"

definition env_one :: env where
  "env_one = env0\<lparr>Lstat := (\<lambda>p. if p = ''logs'' then Some logs_one else None)\<rparr>"

definition env_two_fail :: env where
  "env_two_fail =
     env0\<lparr>Lstat := (\<lambda>p. if p = ''logs'' then Some logs_two else None),
          fails := (\<lambda>c p. c = Create \<and> p = ''logs/a.tgz'')\<rparr>"

text \<open>A sink whose rotation is due at the first tick.\<close>

definition sink_due :: file_logger where
  "sink_due = sink0\<lparr>rotateDuration := Minute\<rparr>"
















text \<open>The number of goroutines that have swapped the flag and not yet finished the
  teardown, and the invariant of the interleaved runs, \<open>t0\<close> being the number of teardowns
  logged before the run.\<close>

definition in_teardown :: "pc list \<Rightarrow> nat" where
  "in_teardown pcs = count (mset pcs) BeforeTeardown"

definition conc_inv :: "nat \<Rightarrow> file_logger \<times> pc list \<Rightarrow> bool" where
  "conc_inv t0 s =
     (case s of (f, pcs) \<Rightarrow>
        (closed f = 0 \<and> \<not> closeNotify f \<and> \<not> messagesClosed f
           \<and> teardowns (trace f) = t0 \<and> (\<forall>pc \<in> set pcs. pc = BeforeCAS))
      \<or> (closed f = 1 \<and> \<not> closeNotify f \<and> \<not> messagesClosed f
           \<and> teardowns (trace f) = t0 \<and> in_teardown pcs = 1)
      \<or> (closed f = 1 \<and> teardowns (trace f) = t0 + 1 \<and> in_teardown pcs = 0))"

text \<open>For the insertion sort: the timestamp at an index, a prefix in descending order, and
  the state of the inner loop, in which the element at \<open>k\<close> is on its way down through
  the prefix up to \<open>j\<close>.\<close>

definition stamp :: "logfile list \<Rightarrow> nat \<Rightarrow> int" where
  "stamp bts i = timestamp (bts ! i)"

definition desc_upto :: "logfile list \<Rightarrow> nat \<Rightarrow> bool" where
  "desc_upto bts n = (\<forall>b < n. \<forall>a < b. stamp bts b \<le> stamp bts a)"

definition moving :: "logfile list \<Rightarrow> nat \<Rightarrow> nat \<Rightarrow> bool" where
  "moving bts k j =
     ((\<forall>b \<le> j. \<forall>a < b. a \<noteq> k \<and> b \<noteq> k \<longrightarrow> stamp bts b \<le> stamp bts a)
      \<and> (\<forall>b. k < b \<and> b \<le> j \<longrightarrow> stamp bts b \<le> stamp bts k))"


section \<open>Properties\<close>

subsection \<open>write\<close>

lemma written_append: "written name (xs @ ys) = written name xs @ written name ys"
  by (induction name xs rule: written.induct) auto

lemma passed_append: "passed name (xs @ ys) = passed name xs @ passed name ys"
  by (induction name xs rule: passed.induct) auto

lemma write_count_le: "write_count e tr h bytes \<le> length bytes"
  by (simp add: write_count_def)

lemma write_count_complete:
  "length bytes \<le> WriteN e tr (fname h) bytes \<Longrightarrow> write_count e tr h bytes = length bytes"
  by (simp add: write_count_def)

lemma formatted_Format: "formatted e (snd (Format e f msg)) m = formatted e f m"
  by (simp add: formatted_def Format_def split: option.splits)

lemma Format_fields:
  "buf (snd (Format e f msg)) = buf f" "trace (snd (Format e f msg)) = trace f"
  "file' (snd (Format e f msg)) = file' f" "filesize (snd (Format e f msg)) = filesize f"
  by (simp_all add: Format_def split: option.splits)

lemma write'_Some:
  "write' e f (Some msg) =
     (let f1 = snd (Format e f msg);
          f2 = (if defaultCacheSize \<le> length (formatted e f msg) + length (buf f) \<and> file' f \<noteq> None
                then flush_to e (the (file' f)) f1 else f1)
      in f2\<lparr>buf := buf f2 @ formatted e f msg @ [CHR 0x0A]\<rparr>)"
  by (cases "formatter f"; cases "file' f")
    (simp_all add: write'_def formatted_def Format_def Let_def)

lemma write'_None: "write' e f None = f"
  by (simp add: write'_def)

text \<open>The three ways \<open>write\<close> can go on a message: the threshold is reached on an open
  handle, on a handle that is not nil but closed, or no write is attempted.\<close>

lemma write'_flush_open:
  assumes "file' f = Some h" and "\<not> fclosed h"
    and "defaultCacheSize \<le> length (formatted e f msg) + length (buf f)"
  shows "trace (write' e f (Some msg)) =
           trace f @ [EvFileWrite (fname h) (buf f) (write_count e (trace f) h (buf f))]"
    and "filesize (write' e f (Some msg)) =
           filesize f + of_nat (write_count e (trace f) h (buf f))"
    and "buf (write' e f (Some msg)) = formatted e f msg @ [CHR 0x0A]"
  using assms
  by (simp_all add: write'_Some Let_def flush_to_def file_Write_def Format_fields)

lemma write'_flush_closed:
  assumes "file' f = Some h" and "fclosed h"
    and "defaultCacheSize \<le> length (formatted e f msg) + length (buf f)"
  shows "trace (write' e f (Some msg)) = trace f"
    and "filesize (write' e f (Some msg)) = filesize f"
    and "buf (write' e f (Some msg)) = formatted e f msg @ [CHR 0x0A]"
  using assms
  by (simp_all add: write'_Some Let_def flush_to_def file_Write_def Format_fields)

lemma write'_no_flush:
  assumes "file' f = None \<or> length (formatted e f msg) + length (buf f) < defaultCacheSize"
  shows "trace (write' e f (Some msg)) = trace f"
    and "filesize (write' e f (Some msg)) = filesize f"
    and "buf (write' e f (Some msg)) = buf f @ formatted e f msg @ [CHR 0x0A]"
  using assms
  by (auto simp add: write'_Some Let_def Format_fields)

text \<open>
  C9 as stated fails. With 2047 bytes in the buffer, a file open and a message of seven
  bytes, \<open>write\<close> passes the buffer to one \<open>Write\<close>; when the operating system takes three
  bytes of it, those three bytes are all that reaches the file, the counter grows by
  three, and the buffer is reset all the same: afterwards it holds the new record alone,
  so 2044 buffered bytes are neither on disk nor in memory.
\<close>

theorem write_short_counterexample:
  "length (buf sink_full) = 2047
   \<and> written ''logs/app-1.log'' (trace (write' env_short sink_full (Some msg0))) = ''xxx''
   \<and> filesize (write' env_short sink_full (Some msg0)) = 3
   \<and> buf (write' env_short sink_full (Some msg0)) = ''started'' @ [CHR 0x0A]"
proof -
  have th: "defaultCacheSize \<le> length (formatted env_short sink_full msg0) + length (buf sink_full)"
    by (simp add: defaultCacheSize_def formatted_def Format_def sink_full_def sink0_def
        env_short_def env0_def msg0_def)
  have h: "file' sink_full = Some \<lparr>fname = ''logs/app-1.log'', fclosed = False\<rparr>"
    by (simp add: sink_full_def sink0_def)
  have op: "\<not> fclosed \<lparr>fname = ''logs/app-1.log'', fclosed = False\<rparr>" by simp
  have n: "write_count env_short (trace sink_full) \<lparr>fname = ''logs/app-1.log'', fclosed = False\<rparr>
             (buf sink_full) = 3"
    by (simp add: write_count_def env_short_def sink_full_def sink0_def)
  have x3: "take 3 (buf sink_full) = ''xxx''"
    by (simp add: sink_full_def sink0_def numeral_3_eq_3)
  have fm: "formatted env_short sink_full msg0 = ''started''"
    by (simp add: formatted_def Format_def sink_full_def sink0_def env_short_def env0_def
        msg0_def)
  have tr0: "trace sink_full = []" and fs0: "filesize sink_full = 0"
    by (simp_all add: sink_full_def sink0_def)
  note fl = write'_flush_open [OF h op th, unfolded n]
  have l: "length (buf sink_full) = 2047"
    by (simp add: sink_full_def sink0_def)
  have tr: "trace (write' env_short sink_full (Some msg0)) =
              [EvFileWrite ''logs/app-1.log'' (buf sink_full) 3]"
    using fl(1) by (simp add: tr0)
  have w: "written ''logs/app-1.log'' (trace (write' env_short sink_full (Some msg0))) = ''xxx''"
    by (simp add: tr x3)
  have fs: "filesize (write' env_short sink_full (Some msg0)) = 3"
    using fl(2) by (simp add: fs0)
  have b: "buf (write' env_short sink_full (Some msg0)) = ''started'' @ [CHR 0x0A]"
    using fl(3) by (simp add: fm)
  from l w fs b show ?thesis by blast
qed

text \<open>
  C9, amended. The threshold is 2048 bytes. When the formatted length of a message plus
  the length of the buffer reaches it and the handle is open, \<open>write\<close> passes the buffer
  as it stands to a single \<open>Write\<close> on the file, adds the count that call returns to
  \<open>filesize\<close> and resets the buffer whatever the call returned, its error being dropped:
  the file receives the first \<open>n\<close> bytes of the buffer, \<open>n\<close> being the count, which is the
  whole buffer when the write is complete. On a handle that is not nil but closed the
  test fires all the same: nothing is written or counted and the buffer is reset. Only
  then are the message and its newline appended, so afterwards the buffer holds that
  record alone. Below the threshold, or with no handle, nothing is written or counted and
  the record is appended to the buffer as it stands.
\<close>

theorem write_flushes_at_threshold:
  "defaultCacheSize = 2048
   \<and> (\<forall>h. file' f = Some h \<and> \<not> fclosed h
          \<and> defaultCacheSize \<le> length (formatted e f msg) + length (buf f) \<longrightarrow>
        trace (write' e f (Some msg)) =
          trace f @ [EvFileWrite (fname h) (buf f) (write_count e (trace f) h (buf f))]
        \<and> written (fname h) (trace (write' e f (Some msg))) =
            written (fname h) (trace f) @ take (write_count e (trace f) h (buf f)) (buf f)
        \<and> filesize (write' e f (Some msg)) =
            filesize f + of_nat (write_count e (trace f) h (buf f))
        \<and> write_count e (trace f) h (buf f) =
            min (WriteN e (trace f) (fname h) (buf f)) (length (buf f))
        \<and> (length (buf f) \<le> WriteN e (trace f) (fname h) (buf f) \<longrightarrow>
             written (fname h) (trace (write' e f (Some msg))) =
               written (fname h) (trace f) @ buf f
             \<and> filesize (write' e f (Some msg)) = filesize f + of_nat (length (buf f)))
        \<and> buf (write' e f (Some msg)) = formatted e f msg @ [CHR 0x0A])
   \<and> (\<forall>h. file' f = Some h \<and> fclosed h
          \<and> defaultCacheSize \<le> length (formatted e f msg) + length (buf f) \<longrightarrow>
        trace (write' e f (Some msg)) = trace f
        \<and> filesize (write' e f (Some msg)) = filesize f
        \<and> buf (write' e f (Some msg)) = formatted e f msg @ [CHR 0x0A])
   \<and> (file' f = None \<or> length (formatted e f msg) + length (buf f) < defaultCacheSize \<longrightarrow>
        trace (write' e f (Some msg)) = trace f
        \<and> filesize (write' e f (Some msg)) = filesize f
        \<and> buf (write' e f (Some msg)) = buf f @ formatted e f msg @ [CHR 0x0A])"
proof (intro conjI allI impI)
  show "defaultCacheSize = 2048" by (simp add: defaultCacheSize_def)
next
  fix h
  assume a: "file' f = Some h \<and> \<not> fclosed h
          \<and> defaultCacheSize \<le> length (formatted e f msg) + length (buf f)"
  then have h: "file' f = Some h" and op: "\<not> fclosed h"
    and th: "defaultCacheSize \<le> length (formatted e f msg) + length (buf f)"
    by simp_all
  note fl = write'_flush_open [OF h op th]
  show "trace (write' e f (Some msg)) =
          trace f @ [EvFileWrite (fname h) (buf f) (write_count e (trace f) h (buf f))]"
    by (rule fl(1))
  show "written (fname h) (trace (write' e f (Some msg))) =
            written (fname h) (trace f) @ take (write_count e (trace f) h (buf f)) (buf f)"
    by (simp add: fl(1) written_append)
  show "filesize (write' e f (Some msg)) =
            filesize f + of_nat (write_count e (trace f) h (buf f))"
    by (rule fl(2))
  show "write_count e (trace f) h (buf f) =
            min (WriteN e (trace f) (fname h) (buf f)) (length (buf f))"
    by (simp add: write_count_def)
  show "buf (write' e f (Some msg)) = formatted e f msg @ [CHR 0x0A]"
    by (rule fl(3))
  {
    assume c: "length (buf f) \<le> WriteN e (trace f) (fname h) (buf f)"
    show "written (fname h) (trace (write' e f (Some msg))) =
               written (fname h) (trace f) @ buf f"
      by (simp add: fl(1) written_append write_count_complete [OF c])
    show "filesize (write' e f (Some msg)) = filesize f + of_nat (length (buf f))"
      by (simp add: fl(2) write_count_complete [OF c])
  }
next
  fix h
  assume a: "file' f = Some h \<and> fclosed h
          \<and> defaultCacheSize \<le> length (formatted e f msg) + length (buf f)"
  then have h: "file' f = Some h" and cl: "fclosed h"
    and th: "defaultCacheSize \<le> length (formatted e f msg) + length (buf f)"
    by simp_all
  note fl = write'_flush_closed [OF h cl th]
  show "trace (write' e f (Some msg)) = trace f" by (rule fl(1))
  show "filesize (write' e f (Some msg)) = filesize f" by (rule fl(2))
  show "buf (write' e f (Some msg)) = formatted e f msg @ [CHR 0x0A]" by (rule fl(3))
next
  assume a: "file' f = None \<or> length (formatted e f msg) + length (buf f) < defaultCacheSize"
  note fl = write'_no_flush [OF a]
  show "trace (write' e f (Some msg)) = trace f" by (rule fl(1))
  show "filesize (write' e f (Some msg)) = filesize f" by (rule fl(2))
  show "buf (write' e f (Some msg)) = buf f @ formatted e f msg @ [CHR 0x0A]" by (rule fl(3))
qed

theorem write_flushes_at_threshold_witness:
  "trace (write' env0 sink_full (Some msg0)) =
     [EvFileWrite ''logs/app-1.log'' (replicate 2047 (CHR ''x'')) 2047]
   \<and> written ''logs/app-1.log'' (trace (write' env0 sink_full (Some msg0))) =
       replicate 2047 (CHR ''x'')
   \<and> filesize (write' env0 sink_full (Some msg0)) = 2047
   \<and> buf (write' env0 sink_full (Some msg0)) = ''started'' @ [CHR 0x0A]
   \<and> trace (write' env0 sink_full_closed (Some msg0)) = []
   \<and> buf (write' env0 sink_full_closed (Some msg0)) = ''started'' @ [CHR 0x0A]
   \<and> trace (write' env0 sink0 (Some msg0)) = []
   \<and> buf (write' env0 sink0 (Some msg0)) = ''started'' @ [CHR 0x0A]"
proof -
  let ?h = "\<lparr>fname = ''logs/app-1.log'', fclosed = False\<rparr>"
  let ?c = "\<lparr>fname = ''logs/app-1.log'', fclosed = True\<rparr>"
  have fm: "formatted env0 sink_full msg0 = ''started''"
    "formatted env0 sink_full_closed msg0 = ''started''"
    "formatted env0 sink0 msg0 = ''started''"
    by (simp_all add: formatted_def Format_def sink_full_closed_def sink_full_def sink0_def
        env0_def msg0_def)
  have fields: "buf sink_full = replicate 2047 (CHR ''x'')" "trace sink_full = []"
    "buf sink_full_closed = replicate 2047 (CHR ''x'')" "trace sink_full_closed = []"
    "buf sink0 = []" "trace sink0 = []" "filesize sink_full = 0"
    by (simp_all add: sink_full_closed_def sink_full_def sink0_def)
  have all: "length (buf sink_full) \<le> WriteN env0 (trace sink_full) (fname ?h) (buf sink_full)"
    by (simp add: env0_def)
  have n: "write_count env0 [] ?h (replicate 2047 (CHR ''x'')) = 2047"
    by (simp add: write_count_def env0_def)
  have "file' sink_full = Some ?h \<and> \<not> fclosed ?h
      \<and> defaultCacheSize \<le> length (formatted env0 sink_full msg0) + length (buf sink_full)"
    by (simp add: fm fields defaultCacheSize_def) (simp add: sink_full_def sink0_def)
  with write_flushes_at_threshold [where f = sink_full and e = env0 and msg = msg0] all
  have "trace (write' env0 sink_full (Some msg0)) =
          trace sink_full @ [EvFileWrite (fname ?h) (buf sink_full)
                               (write_count env0 (trace sink_full) ?h (buf sink_full))]
      \<and> written (fname ?h) (trace (write' env0 sink_full (Some msg0))) =
            written (fname ?h) (trace sink_full) @ buf sink_full
      \<and> filesize (write' env0 sink_full (Some msg0)) =
            filesize sink_full + of_nat (length (buf sink_full))
      \<and> buf (write' env0 sink_full (Some msg0)) = formatted env0 sink_full msg0 @ [CHR 0x0A]"
    by blast
  then have open_case: "trace (write' env0 sink_full (Some msg0)) =
       [EvFileWrite ''logs/app-1.log'' (replicate 2047 (CHR ''x'')) 2047]
     \<and> written ''logs/app-1.log'' (trace (write' env0 sink_full (Some msg0))) =
         replicate 2047 (CHR ''x'')
     \<and> filesize (write' env0 sink_full (Some msg0)) = 2047
     \<and> buf (write' env0 sink_full (Some msg0)) = ''started'' @ [CHR 0x0A]"
    by (simp add: fm fields n)
  have "file' sink_full_closed = Some ?c \<and> fclosed ?c
      \<and> defaultCacheSize
          \<le> length (formatted env0 sink_full_closed msg0) + length (buf sink_full_closed)"
    by (simp add: fm fields defaultCacheSize_def) (simp add: sink_full_closed_def)
  with write_flushes_at_threshold [where f = sink_full_closed and e = env0 and msg = msg0]
  have "trace (write' env0 sink_full_closed (Some msg0)) = trace sink_full_closed
      \<and> buf (write' env0 sink_full_closed (Some msg0)) =
          formatted env0 sink_full_closed msg0 @ [CHR 0x0A]"
    by blast
  then have closed_case: "trace (write' env0 sink_full_closed (Some msg0)) = []
     \<and> buf (write' env0 sink_full_closed (Some msg0)) = ''started'' @ [CHR 0x0A]"
    by (simp add: fm fields)
  have "file' sink0 = None
      \<or> length (formatted env0 sink0 msg0) + length (buf sink0) < defaultCacheSize"
    by (simp add: fm fields defaultCacheSize_def)
  with write_flushes_at_threshold [where f = sink0 and e = env0 and msg = msg0]
  have "trace (write' env0 sink0 (Some msg0)) = trace sink0
      \<and> buf (write' env0 sink0 (Some msg0)) = buf sink0 @ formatted env0 sink0 msg0 @ [CHR 0x0A]"
    by blast
  then have below_case: "trace (write' env0 sink0 (Some msg0)) = []
     \<and> buf (write' env0 sink0 (Some msg0)) = ''started'' @ [CHR 0x0A]"
    by (simp add: fm fields)
  from open_case closed_case below_case show ?thesis by blast
qed

lemma write'_file': "file' (write' e f m) = file' f"
  by (cases m; cases "file' f")
    (simp_all add: write'_None write'_Some Let_def flush_to_def Format_fields split: prod.splits)

lemma write'_formatter:
  "formatter (write' e f m) = formatter (snd (Format e f (the m))) \<or> m = None"
  by (cases m; cases "file' f")
     (simp_all add: write'_None write'_Some Let_def flush_to_def split: prod.splits)

lemma write'_formatted: "formatted e (write' e f m) msg = formatted e f msg"
  using write'_formatter [of e f m]
  by (cases m; cases "formatter f")
     (auto simp add: write'_None formatted_def Format_def split: prod.splits)

lemma record_of_write': "record_of e (write' e f m) = record_of e f"
  by (rule ext) (simp add: record_of_def write'_formatted cong: option.case_cong)

text \<open>What one message adds to the bytes that reach the file, whatever the handle and
  whatever the write returns.\<close>

lemma write'_written:
  assumes "file' f = Some h"
  shows "written (fname h) (trace (write' e f (Some msg))) =
         written (fname h) (trace f)
         @ (if defaultCacheSize \<le> length (formatted e f msg) + length (buf f) \<and> \<not> fclosed h
            then take (write_count e (trace f) h (buf f)) (buf f) else [])"
  using assms
  by (simp add: write'_Some Let_def flush_to_def file_Write_def Format_fields written_append)

lemma write'_buf_law:
  "buf (write' e f (Some msg)) =
     (if defaultCacheSize \<le> length (formatted e f msg) + length (buf f) \<and> file' f \<noteq> None
      then [] else buf f) @ formatted e f msg @ [CHR 0x0A]"
  by (cases "file' f")
    (simp_all add: write'_Some Let_def flush_to_def Format_fields split: prod.splits)

text \<open>On an open handle a message either makes \<open>write\<close> pass the whole buffer to the file
  and start a new one with its record, or adds its record to the buffer.\<close>

lemma write'_passed_cases:
  assumes "file' f = Some h" and "\<not> fclosed h"
  shows "(passed (fname h) (trace (write' e f m)) = passed (fname h) (trace f) @ buf f
            \<and> buf (write' e f m) = record_of e f m)
       \<or> (passed (fname h) (trace (write' e f m)) = passed (fname h) (trace f)
            \<and> buf (write' e f m) = buf f @ record_of e f m)"
proof (cases m)
  case None
  then show ?thesis by (simp add: write'_None record_of_def)
next
  case (Some msg)
  then show ?thesis using assms
    by (simp add: write'_Some Let_def flush_to_def file_Write_def Format_fields passed_append
        record_of_def)
qed

lemma write'_written_cases:
  assumes "file' f = Some h" and "\<not> fclosed h"
    and "\<forall>tr bytes. length bytes \<le> WriteN e tr (fname h) bytes"
  shows "(written (fname h) (trace (write' e f m)) = written (fname h) (trace f) @ buf f
            \<and> buf (write' e f m) = record_of e f m)
       \<or> (written (fname h) (trace (write' e f m)) = written (fname h) (trace f)
            \<and> buf (write' e f m) = buf f @ record_of e f m)"
proof (cases m)
  case None
  then show ?thesis by (simp add: write'_None record_of_def)
next
  case (Some msg)
  have "write_count e (trace f) h (buf f) = length (buf f)"
    using assms(3) by (simp add: write_count_complete)
  then show ?thesis using Some assms(1,2)
    by (simp add: write'_Some Let_def flush_to_def file_Write_def Format_fields written_append
        record_of_def)
qed

lemma foldl_write'_passed:
  assumes "file' f = Some h" and "\<not> fclosed h"
  shows "passed (fname h) (trace (foldl (write' e) f ms)) @ buf (foldl (write' e) f ms) =
         passed (fname h) (trace f) @ buf f @ concat (map (record_of e f) ms)"
  using assms
proof (induction ms arbitrary: f)
  case Nil
  then show ?case by simp
next
  case (Cons m ms)
  have "file' (write' e f m) = Some h"
    using Cons.prems by (simp add: write'_file')
  from Cons.IH [OF this Cons.prems(2)] write'_passed_cases [OF Cons.prems, of e m]
  show ?case
    by (auto simp add: record_of_write')
qed

lemma foldl_write'_written:
  assumes "file' f = Some h" and "\<not> fclosed h"
    and "\<forall>tr bytes. length bytes \<le> WriteN e tr (fname h) bytes"
  shows "written (fname h) (trace (foldl (write' e) f ms)) @ buf (foldl (write' e) f ms) =
         written (fname h) (trace f) @ buf f @ concat (map (record_of e f) ms)"
  using assms
proof (induction ms arbitrary: f)
  case Nil
  then show ?case by simp
next
  case (Cons m ms)
  have "file' (write' e f m) = Some h"
    using Cons.prems by (simp add: write'_file')
  from Cons.IH [OF this Cons.prems(2,3)] write'_written_cases [OF Cons.prems, of m]
  show ?case
    by (auto simp add: record_of_write')
qed

text \<open>With complete writes the file holds whole records: what a run of messages adds to
  it is nothing, or the buffer it started with and the records of the first \<open>j\<close>
  messages.\<close>

lemma foldl_write'_whole_records:
  assumes "file' f = Some h" and "\<not> fclosed h"
    and "\<forall>tr bytes. length bytes \<le> WriteN e tr (fname h) bytes"
  shows "written (fname h) (trace (foldl (write' e) f ms)) = written (fname h) (trace f)
       \<or> (\<exists>j<length ms. written (fname h) (trace (foldl (write' e) f ms)) =
             written (fname h) (trace f) @ buf f @ concat (map (record_of e f) (take j ms)))"
  using assms
proof (induction ms arbitrary: f)
  case Nil
  then show ?case by simp
next
  case (Cons m ms)
  let ?g = "write' e f m"
  let ?W = "written (fname h) (trace (foldl (write' e) ?g ms))"
  have h': "file' ?g = Some h"
    using Cons.prems by (simp add: write'_file')
  have ih: "?W = written (fname h) (trace ?g)
       \<or> (\<exists>j<length ms. ?W =
             written (fname h) (trace ?g) @ buf ?g @ concat (map (record_of e f) (take j ms)))"
    using Cons.IH [OF h' Cons.prems(2,3)] by (simp add: record_of_write')
  have step: "(written (fname h) (trace ?g) = written (fname h) (trace f) @ buf f
                 \<and> buf ?g = record_of e f m)
       \<or> (written (fname h) (trace ?g) = written (fname h) (trace f)
                 \<and> buf ?g = buf f @ record_of e f m)"
    by (rule write'_written_cases [OF Cons.prems])
  from ih show ?case
  proof
    assume same: "?W = written (fname h) (trace ?g)"
    from step show ?case
    proof
      assume "written (fname h) (trace ?g) = written (fname h) (trace f) @ buf f
                 \<and> buf ?g = record_of e f m"
      then have "?W = written (fname h) (trace f) @ buf f
                   @ concat (map (record_of e f) (take 0 (m # ms)))"
        using same by simp
      then show ?case by (intro disjI2 exI [of _ 0]) simp
    next
      assume "written (fname h) (trace ?g) = written (fname h) (trace f)
                 \<and> buf ?g = buf f @ record_of e f m"
      then show ?case using same by simp
    qed
  next
    assume "\<exists>j<length ms. ?W =
             written (fname h) (trace ?g) @ buf ?g @ concat (map (record_of e f) (take j ms))"
    then obtain j where j: "j < length ms"
      and w: "?W = written (fname h) (trace ?g) @ buf ?g
                     @ concat (map (record_of e f) (take j ms))"
      by blast
    have "?W = written (fname h) (trace f) @ buf f
                 @ concat (map (record_of e f) (take (Suc j) (m # ms)))"
      using step w by auto
    then show ?case using j by (intro disjI2 exI [of _ "Suc j"]) simp
  qed
qed

text \<open>
  C10 as stated fails. The sink with an empty buffer and an open file handles a message
  of 2047 bytes and then one of seven bytes. The first record, 2048 bytes with its
  newline, is buffered; the second message reaches the threshold, the buffer is passed to
  \<open>Write\<close>, the operating system takes three bytes of it, and the buffer is reset. The
  file then holds three bytes of the first record and no newline, and the rest of that
  record is lost.
\<close>

theorem write_records_counterexample:
  "record_of env_short sink0 (Some msg_long) = replicate 2047 (CHR ''x'') @ [CHR 0x0A]
   \<and> record_of env_short sink0 (Some msg0) = ''started'' @ [CHR 0x0A]
   \<and> written ''logs/app-1.log''
         (trace (foldl (write' env_short) sink0 [Some msg_long, Some msg0])) = ''xxx''
   \<and> buf (foldl (write' env_short) sink0 [Some msg_long, Some msg0]) = ''started'' @ [CHR 0x0A]"
proof -
  let ?h = "\<lparr>fname = ''logs/app-1.log'', fclosed = False\<rparr>"
  let ?g = "write' env_short sink0 (Some msg_long)"
  have fm: "formatted env_short sink0 msg_long = replicate 2047 (CHR ''x'')"
    "formatted env_short sink0 msg0 = ''started''"
    by (simp_all add: formatted_def Format_def sink0_def env_short_def env0_def msg_long_def
        msg0_def)
  have r: "record_of env_short sink0 (Some msg_long) = replicate 2047 (CHR ''x'') @ [CHR 0x0A]"
    "record_of env_short sink0 (Some msg0) = ''started'' @ [CHR 0x0A]"
    by (simp_all add: record_of_def fm)
  have fields: "buf sink0 = []" "trace sink0 = []" "file' sink0 = Some ?h"
    by (simp_all add: sink0_def)
  have "file' sink0 = None
      \<or> length (formatted env_short sink0 msg_long) + length (buf sink0) < defaultCacheSize"
    by (simp add: fm fields defaultCacheSize_def)
  note first = write'_no_flush [OF this]
  have g: "trace ?g = []" "buf ?g = replicate 2047 (CHR ''x'') @ [CHR 0x0A]"
    "file' ?g = Some ?h" "formatted env_short ?g msg0 = ''started''"
    using first by (simp_all add: fm fields write'_file' write'_formatted)
  have th: "defaultCacheSize \<le> length (formatted env_short ?g msg0) + length (buf ?g)"
    by (simp add: g defaultCacheSize_def)
  have wn: "WriteN env_short tr name bytes = 3" for tr name bytes
    by (simp add: env_short_def)
  have n: "write_count env_short (trace ?g) ?h (buf ?g) = 3"
    by (simp add: write_count_def wn g)
  have x3: "take 3 (buf ?g) = ''xxx''"
    by (simp add: g numeral_3_eq_3)
  have op: "\<not> fclosed ?h" by simp
  note second = write'_flush_open [OF g(3) op th, unfolded n]
  have w: "written ''logs/app-1.log'' (trace (write' env_short ?g (Some msg0))) = ''xxx''"
    using second(1) by (simp add: g(1) x3)
  have b: "buf (write' env_short ?g (Some msg0)) = ''started'' @ [CHR 0x0A]"
    using second(3) by (simp add: g(4))
  from r w b show ?thesis by simp
qed

text \<open>
  C10, amended. A nil message leaves the sink as it is. A message that is not nil is
  appended to the buffer as the output of the formatter followed by one newline, after
  the buffer has been emptied if the threshold is reached and the handle is not nil.
  What such a message adds to the file is nothing, or the first \<open>n\<close> bytes of the buffer
  as it stood, \<open>n\<close> being the count the write returned; on a closed handle, and for the
  bytes a short or failed write did not take, the buffered records are dropped. So,
  while the handle is open, the bytes passed to the writes on the file followed by the
  bytes still in the buffer grow, over any run of messages, by exactly one
  newline-terminated record for each message that is not nil, in the order handled; and
  when every write is complete the same holds of the bytes that reached the file, which
  then holds whole records only.
\<close>

theorem write_appends_records:
  "write' e f None = f
   \<and> buf (write' e f (Some msg)) =
       (if defaultCacheSize \<le> length (formatted e f msg) + length (buf f) \<and> file' f \<noteq> None
        then [] else buf f) @ formatted e f msg @ [CHR 0x0A]
   \<and> (\<forall>h. file' f = Some h \<longrightarrow>
        written (fname h) (trace (write' e f (Some msg))) =
          written (fname h) (trace f)
          @ (if defaultCacheSize \<le> length (formatted e f msg) + length (buf f) \<and> \<not> fclosed h
             then take (write_count e (trace f) h (buf f)) (buf f) else []))
   \<and> (\<forall>h. file' f = Some h \<and> \<not> fclosed h \<longrightarrow>
        passed (fname h) (trace (foldl (write' e) f ms)) @ buf (foldl (write' e) f ms) =
        passed (fname h) (trace f) @ buf f @ concat (map (record_of e f) ms))
   \<and> (\<forall>h. file' f = Some h \<and> \<not> fclosed h
          \<and> (\<forall>tr bytes. length bytes \<le> WriteN e tr (fname h) bytes) \<longrightarrow>
        written (fname h) (trace (foldl (write' e) f ms)) @ buf (foldl (write' e) f ms) =
          written (fname h) (trace f) @ buf f @ concat (map (record_of e f) ms)
        \<and> (written (fname h) (trace (foldl (write' e) f ms)) = written (fname h) (trace f)
           \<or> (\<exists>j<length ms. written (fname h) (trace (foldl (write' e) f ms)) =
                 written (fname h) (trace f) @ buf f
                 @ concat (map (record_of e f) (take j ms)))))"
proof (intro conjI allI impI)
  show "write' e f None = f" by (rule write'_None)
  show "buf (write' e f (Some msg)) =
       (if defaultCacheSize \<le> length (formatted e f msg) + length (buf f) \<and> file' f \<noteq> None
        then [] else buf f) @ formatted e f msg @ [CHR 0x0A]"
    by (rule write'_buf_law)
next
  fix h assume "file' f = Some h"
  then show "written (fname h) (trace (write' e f (Some msg))) =
          written (fname h) (trace f)
          @ (if defaultCacheSize \<le> length (formatted e f msg) + length (buf f) \<and> \<not> fclosed h
             then take (write_count e (trace f) h (buf f)) (buf f) else [])"
    by (rule write'_written)
next
  fix h assume "file' f = Some h \<and> \<not> fclosed h"
  then have h: "file' f = Some h" and op: "\<not> fclosed h" by simp_all
  show "passed (fname h) (trace (foldl (write' e) f ms)) @ buf (foldl (write' e) f ms) =
        passed (fname h) (trace f) @ buf f @ concat (map (record_of e f) ms)"
    by (rule foldl_write'_passed [OF h op])
next
  fix h assume a: "file' f = Some h \<and> \<not> fclosed h
          \<and> (\<forall>tr bytes. length bytes \<le> WriteN e tr (fname h) bytes)"
  then have h: "file' f = Some h" and op: "\<not> fclosed h"
    and c: "\<forall>tr bytes. length bytes \<le> WriteN e tr (fname h) bytes"
    by simp_all
  show "written (fname h) (trace (foldl (write' e) f ms)) @ buf (foldl (write' e) f ms) =
          written (fname h) (trace f) @ buf f @ concat (map (record_of e f) ms)"
    by (rule foldl_write'_written [OF h op c])
  show "written (fname h) (trace (foldl (write' e) f ms)) = written (fname h) (trace f)
           \<or> (\<exists>j<length ms. written (fname h) (trace (foldl (write' e) f ms)) =
                 written (fname h) (trace f) @ buf f
                 @ concat (map (record_of e f) (take j ms)))"
    by (rule foldl_write'_whole_records [OF h op c])
qed

theorem write_appends_records_witness:
  "written ''logs/app-1.log'' (trace (foldl (write' env0) sink_full [Some msg0, None, Some msg0]))
     @ buf (foldl (write' env0) sink_full [Some msg0, None, Some msg0])
   = replicate 2047 (CHR ''x'') @ ''started'' @ [CHR 0x0A] @ ''started'' @ [CHR 0x0A]
   \<and> passed ''logs/app-1.log''
       (trace (foldl (write' env_short) sink_full [Some msg0, None, Some msg0]))
     @ buf (foldl (write' env_short) sink_full [Some msg0, None, Some msg0])
   = replicate 2047 (CHR ''x'') @ ''started'' @ [CHR 0x0A] @ ''started'' @ [CHR 0x0A]
   \<and> written ''logs/app-1.log'' (trace (write' env0 sink_full_closed (Some msg0))) = []"
proof -
  let ?h = "\<lparr>fname = ''logs/app-1.log'', fclosed = False\<rparr>"
  let ?c = "\<lparr>fname = ''logs/app-1.log'', fclosed = True\<rparr>"
  let ?ms = "[Some msg0, None, Some msg0]"
  have fm: "formatted env0 sink_full msg0 = ''started''"
    "formatted env_short sink_full msg0 = ''started''"
    by (simp_all add: formatted_def Format_def sink_full_def sink0_def env_short_def env0_def
        msg0_def)
  have fields: "buf sink_full = replicate 2047 (CHR ''x'')" "trace sink_full = []"
    "file' sink_full = Some ?h" "trace sink_full_closed = []" "file' sink_full_closed = Some ?c"
    by (simp_all add: sink_full_closed_def sink_full_def sink0_def)
  have "file' sink_full = Some ?h \<and> \<not> fclosed ?h
      \<and> (\<forall>tr bytes. length bytes \<le> WriteN env0 tr (fname ?h) bytes)"
    by (simp add: fields env0_def)
  with write_appends_records [where f = sink_full and e = env0 and ms = ?ms]
  have "written (fname ?h) (trace (foldl (write' env0) sink_full ?ms))
          @ buf (foldl (write' env0) sink_full ?ms) =
        written (fname ?h) (trace sink_full) @ buf sink_full
          @ concat (map (record_of env0 sink_full) ?ms)"
    by blast
  then have complete: "written ''logs/app-1.log'' (trace (foldl (write' env0) sink_full ?ms))
          @ buf (foldl (write' env0) sink_full ?ms)
      = replicate 2047 (CHR ''x'') @ ''started'' @ [CHR 0x0A] @ ''started'' @ [CHR 0x0A]"
    by (simp add: fields record_of_def fm)
  have "file' sink_full = Some ?h \<and> \<not> fclosed ?h"
    by (simp add: fields)
  with write_appends_records [where f = sink_full and e = env_short and ms = ?ms]
  have "passed (fname ?h) (trace (foldl (write' env_short) sink_full ?ms))
          @ buf (foldl (write' env_short) sink_full ?ms) =
        passed (fname ?h) (trace sink_full) @ buf sink_full
          @ concat (map (record_of env_short sink_full) ?ms)"
    by blast
  then have short: "passed ''logs/app-1.log'' (trace (foldl (write' env_short) sink_full ?ms))
          @ buf (foldl (write' env_short) sink_full ?ms)
      = replicate 2047 (CHR ''x'') @ ''started'' @ [CHR 0x0A] @ ''started'' @ [CHR 0x0A]"
    by (simp add: fields record_of_def fm)
  from write_appends_records [where f = sink_full_closed and e = env0 and msg = msg0]
    fields(5)
  have "written (fname ?c) (trace (write' env0 sink_full_closed (Some msg0))) =
          written (fname ?c) (trace sink_full_closed)
          @ (if defaultCacheSize
                 \<le> length (formatted env0 sink_full_closed msg0) + length (buf sink_full_closed)
                \<and> \<not> fclosed ?c
             then take (write_count env0 (trace sink_full_closed) ?c (buf sink_full_closed))
                    (buf sink_full_closed) else [])"
    by blast
  then have closed_case:
    "written ''logs/app-1.log'' (trace (write' env0 sink_full_closed (Some msg0))) = []"
    by (simp add: fields)
  from complete short closed_case show ?thesis by blast
qed

subsection \<open>The naming policy\<close>

declare Path_format_loop.simps [simp del]
declare Itoa.simps [simp del]

lemma Itoa_nonempty: "Itoa n \<noteq> []"
  by (subst Itoa.simps) simp

lemma Path_format_loop_unfold:
  "Path_format_loop e dir prefix suffix try =
     (if try < 100
      then if Stat e (Join e dir (candidate e prefix suffix try)) = StatNotExist
           then (candidate e prefix suffix try, try)
           else Path_format_loop e dir prefix suffix (try + 1)
      else ([], try))"
  by (subst Path_format_loop.simps) (simp add: candidate_def Let_def)

lemma Path_format_loop_result:
  "Path_format_loop e dir prefix suffix try = (name, t) \<Longrightarrow> try \<le> 100 \<Longrightarrow>
     try \<le> t \<and> t \<le> 100
     \<and> (\<forall>k. try \<le> k \<and> k < t \<longrightarrow> Stat e (Join e dir (candidate e prefix suffix k)) \<noteq> StatNotExist)
     \<and> (if t < 100
         then name = candidate e prefix suffix t
              \<and> Stat e (Join e dir (candidate e prefix suffix t)) = StatNotExist
         else name = [])"
proof (induction e dir prefix suffix "try" rule: Path_format_loop.induct)
  case (1 e dir prefix suffix "try")
  show ?case
  proof (cases "try < 100")
    case False
    with "1.prems" show ?thesis
      by (subst (asm) Path_format_loop_unfold) auto
  next
    case True
    show ?thesis
    proof (cases "Stat e (Join e dir (candidate e prefix suffix try)) = StatNotExist")
      case found: True
      with True "1.prems" show ?thesis
        by (subst (asm) Path_format_loop_unfold) auto
    next
      case collide: False
      with True "1.prems" have rec: "Path_format_loop e dir prefix suffix (try + 1) = (name, t)"
        by (subst (asm) Path_format_loop_unfold) simp
      have "Stat e (Join e dir (prefix @ Itoa (unat (Int31 e try)) @ suffix)) \<noteq> StatNotExist"
        using collide by (simp add: candidate_def)
      from "1.IH" [OF True refl this rec] True
      have ih: "try + 1 \<le> t \<and> t \<le> 100
         \<and> (\<forall>k. try + 1 \<le> k \<and> k < t \<longrightarrow> Stat e (Join e dir (candidate e prefix suffix k)) \<noteq> StatNotExist)
         \<and> (if t < 100
         then name = candidate e prefix suffix t
              \<and> Stat e (Join e dir (candidate e prefix suffix t)) = StatNotExist
         else name = [])"
        by simp
      have "\<forall>k. try \<le> k \<and> k < t \<longrightarrow> Stat e (Join e dir (candidate e prefix suffix k)) \<noteq> StatNotExist"
      proof (intro allI impI)
        fix k assume k: "try \<le> k \<and> k < t"
        show "Stat e (Join e dir (candidate e prefix suffix k)) \<noteq> StatNotExist"
        proof (cases "k = try")
          case True then show ?thesis using collide by simp
        next
          case False
          with k have "try + 1 \<le> k \<and> k < t" by simp
          with ih show ?thesis by blast
        qed
      qed
      with ih show ?thesis by simp
    qed
  qed
qed

lemma candidate_nonempty: "candidate e prefix suffix k \<noteq> []"
  by (simp add: candidate_def Itoa_nonempty)

text \<open>
  C7. The closure that \<open>Path\<close> installs for a pattern tries at most 100 names. A name it
  returns is one of the names it built and \<open>os.Stat\<close> reported that no file exists at
  its path. When every one of the 100 attempts collides it returns the empty string, after
  exactly 100 attempts; in particular when a file exists at every name the pattern can
  produce, no name is returned.
\<close>

theorem Path_format_bounded_and_fresh:
  "Path_format_attempts e dir prefix suffix \<le> 100
   \<and> (Path_format e dir prefix suffix \<noteq> [] \<longrightarrow>
        (\<exists>k<100. Path_format e dir prefix suffix = candidate e prefix suffix k)
        \<and> Stat e (Join e dir (Path_format e dir prefix suffix)) = StatNotExist)
   \<and> ((\<forall>k<100. Stat e (Join e dir (candidate e prefix suffix k)) \<noteq> StatNotExist) \<longrightarrow>
        Path_format e dir prefix suffix = [] \<and> Path_format_attempts e dir prefix suffix = 100)
   \<and> ((\<forall>n. Stat e (Join e dir (prefix @ Itoa n @ suffix)) = StatOk) \<longrightarrow>
        Path_format e dir prefix suffix = [])"
proof -
  obtain name t where loop: "Path_format_loop e dir prefix suffix 0 = (name, t)"
    by (cases "Path_format_loop e dir prefix suffix 0")
  from Path_format_loop_result [OF loop]
  have r: "t \<le> 100"
    "\<forall>k. k < t \<longrightarrow> Stat e (Join e dir (candidate e prefix suffix k)) \<noteq> StatNotExist"
    "t < 100 \<Longrightarrow> name = candidate e prefix suffix t
        \<and> Stat e (Join e dir (candidate e prefix suffix t)) = StatNotExist"
    "\<not> t < 100 \<Longrightarrow> name = []"
    by (simp_all split: if_splits)
  have pf: "Path_format e dir prefix suffix = name"
    by (simp add: Path_format_def loop)
  have at: "Path_format_attempts e dir prefix suffix = (if name = [] then t else t + 1)"
    by (simp add: Path_format_attempts_def loop)
  have lt: "name \<noteq> [] \<Longrightarrow> t < 100" using r(4) by blast
  have c1: "Path_format_attempts e dir prefix suffix \<le> 100"
    using r(1) lt by (auto simp: at)
  have c2: "Path_format e dir prefix suffix \<noteq> [] \<longrightarrow>
        (\<exists>k<100. Path_format e dir prefix suffix = candidate e prefix suffix k)
        \<and> Stat e (Join e dir (Path_format e dir prefix suffix)) = StatNotExist"
    using lt r(3) by (auto simp: pf)
  have c3: "(\<forall>k<100. Stat e (Join e dir (candidate e prefix suffix k)) \<noteq> StatNotExist) \<longrightarrow>
        Path_format e dir prefix suffix = [] \<and> Path_format_attempts e dir prefix suffix = 100"
  proof
    assume all: "\<forall>k<100. Stat e (Join e dir (candidate e prefix suffix k)) \<noteq> StatNotExist"
    have "\<not> t < 100"
    proof
      assume "t < 100"
      with r(3) have "Stat e (Join e dir (candidate e prefix suffix t)) = StatNotExist"
        by blast
      with all \<open>t < 100\<close> show False by blast
    qed
    with r(1) r(4) show "Path_format e dir prefix suffix = [] \<and> Path_format_attempts e dir prefix suffix = 100"
      by (auto simp: pf at)
  qed
  have c4: "(\<forall>n. Stat e (Join e dir (prefix @ Itoa n @ suffix)) = StatOk) \<longrightarrow>
        Path_format e dir prefix suffix = []"
  proof
    assume "\<forall>n. Stat e (Join e dir (prefix @ Itoa n @ suffix)) = StatOk"
    then have "\<forall>k<100. Stat e (Join e dir (candidate e prefix suffix k)) \<noteq> StatNotExist"
      by (simp add: candidate_def)
    with c3 show "Path_format e dir prefix suffix = []" by blast
  qed
  from c1 c2 c3 c4 show ?thesis by blast
qed


theorem Path_format_bounded_and_fresh_witness:
  "Path_affixes ''test-*'' = (''test-'', ''.log'')
   \<and> Path_format env_taken ''logs'' ''test-'' ''.log'' = ''test-1.log''
   \<and> Stat env_taken (Join env_taken ''logs'' ''test-1.log'') = StatNotExist
   \<and> Path_format env_all_taken ''logs'' ''test-'' ''.log'' = []
   \<and> Path_format_attempts env_all_taken ''logs'' ''test-'' ''.log'' = 100"
  using Path_format_bounded_and_fresh [of env_taken "''logs''" "''test-''" "''.log''"]
    Path_format_bounded_and_fresh [of env_all_taken "''logs''" "''test-''" "''.log''"]
  by (simp add: Path_format_def Path_format_loop.simps env_taken_def env_all_taken_def env0_def
      Itoa.simps Let_def Path_affixes_def HasSuffix_def)

subsection \<open>Write and Close\<close>

lemma teardowns_append: "teardowns (xs @ ys) = teardowns xs + teardowns ys"
  by (simp add: teardowns_def)

lemma teardowns_teardown_events: "teardowns (teardown_events e f) = 1"
  by (simp add: teardowns_def teardown_events_def split: option.splits)

lemma Close_first:
  assumes "closed f = 0" "\<not> closeNotify f" "\<not> messagesClosed f"
  shows "\<exists>f'. Close e f = Returns (None, f') \<and> closed f' = 1 \<and> closeNotify f' \<and> messagesClosed f'
           \<and> trace f' = trace f @ teardown_events e f \<and> messages f' = messages f
           \<and> (file' f \<noteq> None \<longrightarrow> buf f' = [])
           \<and> (\<forall>h. file' f = Some h \<longrightarrow> file' f' = Some (h\<lparr>fclosed := True\<rparr>))"
  using assms
  by (cases "file' f")
    (simp_all add: Close_def Close_cas_def Close_teardown_def Let_def flush_def flush_to_def
      file_Write_def teardown_events_def close_file_def)

lemma Close_later: "closed f \<noteq> 0 \<Longrightarrow> Close e f = Returns (None, f)"
  by (simp add: Close_def Close_cas_def)

lemma Write_closed: "closed f = 1 \<Longrightarrow> Write f msg = Returns f"
  by (simp add: Write_def)

lemma Write_trace: "Write f msg = Returns f' \<Longrightarrow>
   trace f' = trace f \<and> closed f' = closed f \<and> closeNotify f' = closeNotify f
   \<and> messagesClosed f' = messagesClosed f"
  by (auto simp: Write_def split: if_splits)

lemma apply_call_step:
  assumes "channels_consistent f" and "apply_call e f c = Returns f'"
  shows "channels_consistent f'
     \<and> (closed f = 1 \<longrightarrow> f' = f)
     \<and> teardowns (trace f') \<le> teardowns (trace f) + (if closed f = 0 then 1 else 0)
     \<and> (teardowns (trace f') \<noteq> teardowns (trace f) \<longrightarrow> closed f' = 1)
     \<and> (closed f' = 0 \<longrightarrow> closed f = 0)"
proof (cases c)
  case (CallWrite msg)
  with assms(2) have w: "Write f msg = Returns f'" by (simp add: apply_call_def)
  have same: "closed f = 1 \<longrightarrow> f' = f"
    using Write_closed [of f msg] w by simp
  from Write_trace [OF w] have t: "trace f' = trace f" "closed f' = closed f"
    "closeNotify f' = closeNotify f" "messagesClosed f' = messagesClosed f" by simp_all
  have "channels_consistent f'"
    using assms(1) unfolding channels_consistent_def t .
  with same t show ?thesis by simp
next
  case CallClose
  show ?thesis
  proof (cases "closed f = 0")
    case True
    with assms(1) have ch: "\<not> closeNotify f" "\<not> messagesClosed f"
      by (simp_all add: channels_consistent_def)
    from Close_first [OF True ch] obtain g where
      g: "Close e f = Returns (None, g)" "closed g = 1" "trace g = trace f @ teardown_events e f"
      by blast
    with assms(2) CallClose have "f' = g" by (simp add: apply_call_def)
    with g True show ?thesis
      by (simp add: channels_consistent_def teardowns_append teardowns_teardown_events)
  next
    case False
    with assms(1) have one: "closed f = 1" by (simp add: channels_consistent_def)
    from Close_later [OF False] assms(2) CallClose have "f' = f" by (simp add: apply_call_def)
    with assms(1) one show ?thesis by simp
  qed
qed

lemma run_calls_Cons:
  "run_calls e f (c # cs) = Returns f' \<Longrightarrow>
     \<exists>g. apply_call e f c = Returns g \<and> run_calls e g cs = Returns f'"
  by (cases "apply_call e f c") simp_all

lemma run_calls_teardown:
  "channels_consistent f \<Longrightarrow> run_calls e f cs = Returns f' \<Longrightarrow>
     teardowns (trace f') \<le> teardowns (trace f) + (if closed f = 0 then 1 else 0)
     \<and> (closed f = 1 \<longrightarrow> f' = f)"
proof (induction cs arbitrary: f)
  case Nil
  then show ?case by simp
next
  case (Cons c cs)
  from run_calls_Cons [OF Cons.prems(2)] obtain g where
    g: "apply_call e f c = Returns g" "run_calls e g cs = Returns f'"
    by blast
  from apply_call_step [OF Cons.prems(1) g(1)] have s:
    "channels_consistent g" "closed f = 1 \<longrightarrow> g = f"
    "teardowns (trace g) \<le> teardowns (trace f) + (if closed f = 0 then 1 else 0)"
    "teardowns (trace g) \<noteq> teardowns (trace f) \<longrightarrow> closed g = 1"
    "closed g = 0 \<longrightarrow> closed f = 0"
    by blast+
  from Cons.IH [OF s(1) g(2)] have ih:
    "teardowns (trace f') \<le> teardowns (trace g) + (if closed g = 0 then 1 else 0)"
    "closed g = 1 \<longrightarrow> f' = g" by blast+
  have bound: "teardowns (trace f') \<le> teardowns (trace f) + (if closed f = 0 then 1 else 0)"
  proof (cases "closed g = 0")
    case True
    with s(4) have "teardowns (trace g) = teardowns (trace f)" by auto
    with ih(1) True s(5) show ?thesis by simp
  next
    case False
    with s(1) have "closed g = 1" by (simp add: channels_consistent_def)
    with ih(2) have "f' = g" by blast
    with s(3) show ?thesis by simp
  qed
  have "closed f = 1 \<longrightarrow> f' = f"
  proof
    assume one: "closed f = 1"
    with s(2) have "g = f" by blast
    with ih(2) one show "f' = f" by simp
  qed
  with bound show ?case by blast
qed

lemma Close_teardown_open:
  assumes "\<not> closeNotify f" "\<not> messagesClosed f"
  shows "\<exists>f'. Close_teardown e f = Returns (None, f') \<and> closed f' = closed f
           \<and> trace f' = trace f @ teardown_events e f"
  using assms
  by (cases "file' f")
    (simp_all add: Close_teardown_def Let_def flush_def flush_to_def file_Write_def
      teardown_events_def close_file_def)

lemma in_teardown_update:
  assumes "i < length pcs"
  shows "in_teardown (pcs[i := v]) =
     in_teardown pcs - (if pcs ! i = BeforeTeardown then 1 else 0)
       + (if v = BeforeTeardown then 1 else 0)"
  using assms by (simp add: in_teardown_def mset_update)

lemma in_teardown_none: "\<forall>pc \<in> set pcs. pc = BeforeCAS \<Longrightarrow> in_teardown pcs = 0"
  unfolding in_teardown_def by (metis count_eq_zero_iff pc.distinct(1) set_mset_mset)

lemma in_teardown_some: "BeforeTeardown \<in> set pcs \<Longrightarrow> in_teardown pcs \<noteq> 0"
  unfolding in_teardown_def by (metis count_eq_zero_iff set_mset_mset)

lemma conc_step_inv:
  assumes "conc_inv t0 s"
  shows "\<exists>s'. conc_step e i s = Returns s' \<and> conc_inv t0 s'"
proof -
  obtain f pcs where s: "s = (f, pcs)" by (cases s)
  show ?thesis
  proof (cases "i < length pcs")
    case False
    with assms s show ?thesis by (simp add: conc_step_def)
  next
    case i: True
    then have mem: "pcs ! i \<in> set pcs" by simp
    show ?thesis
    proof (cases "pcs ! i")
      case Returned
      with assms s i show ?thesis by (simp add: conc_step_def)
    next
      case BeforeCAS
      show ?thesis
      proof (cases "closed f = 0")
        case True
        with assms s have a: "\<not> closeNotify f" "\<not> messagesClosed f"
          "teardowns (trace f) = t0" "\<forall>pc \<in> set pcs. pc = BeforeCAS"
          by (auto simp: conc_inv_def)
        from in_teardown_none [OF a(4)] i BeforeCAS
        have "in_teardown (pcs[i := BeforeTeardown]) = 1"
          by (simp add: in_teardown_update)
        moreover have "conc_step e i s = Returns (f\<lparr>closed := 1\<rparr>, pcs[i := BeforeTeardown])"
          using s i BeforeCAS True by (simp add: conc_step_def Close_cas_def)
        ultimately show ?thesis
          using a by (simp add: conc_inv_def)
      next
        case False
        with assms s have one: "closed f = 1" by (auto simp: conc_inv_def)
        have same: "in_teardown (pcs[i := Returned]) = in_teardown pcs"
          using i BeforeCAS by (simp add: in_teardown_update)
        have "conc_step e i s = Returns (f, pcs[i := Returned])"
          using s i BeforeCAS one by (simp add: conc_step_def Close_cas_def)
        moreover have "conc_inv t0 (f, pcs[i := Returned])"
          using assms s one by (simp add: conc_inv_def same)
        ultimately show ?thesis by blast
      qed
    next
      case BeforeTeardown
      with mem have pos: "in_teardown pcs \<noteq> 0"
        using in_teardown_some by metis
      have notall: "\<not> (\<forall>pc \<in> set pcs. pc = BeforeCAS)"
        using mem BeforeTeardown by auto
      with assms s pos have a: "closed f = 1" "\<not> closeNotify f" "\<not> messagesClosed f"
        "teardowns (trace f) = t0" "in_teardown pcs = 1"
        by (auto simp: conc_inv_def)
      from Close_teardown_open [OF a(2,3)] obtain f' where
        f': "Close_teardown e f = Returns (None, f')" "closed f' = closed f"
          "trace f' = trace f @ teardown_events e f" by blast
      have "in_teardown (pcs[i := Returned]) = 0"
        using i BeforeTeardown a(5) by (simp add: in_teardown_update)
      moreover have "conc_step e i s = Returns (f', pcs[i := Returned])"
        using s i BeforeTeardown f'(1) by (simp add: conc_step_def)
      ultimately show ?thesis
        using f' a by (simp add: conc_inv_def teardowns_append teardowns_teardown_events)
    qed
  qed
qed

lemma conc_run_inv:
  "conc_inv t0 s \<Longrightarrow> \<exists>s'. conc_run e sched s = Returns s' \<and> conc_inv t0 s'"
proof (induction sched arbitrary: s)
  case Nil
  then show ?case by simp
next
  case (Cons i sched)
  from conc_step_inv [OF Cons.prems, of e i] obtain s1 where
    s1: "conc_step e i s = Returns s1" "conc_inv t0 s1" by blast
  from Cons.IH [OF s1(2)] s1(1) show ?case by simp
qed

lemma conc_inv_bound: "conc_inv t0 (f, pcs) \<Longrightarrow> teardowns (trace f) \<le> t0 + 1"
  by (auto simp: conc_inv_def)

lemma conc_inv_initial:
  "closed f = 0 \<Longrightarrow> \<not> closeNotify f \<Longrightarrow> \<not> messagesClosed f \<Longrightarrow>
     conc_inv (teardowns (trace f)) (f, replicate n BeforeCAS)"
  by (simp add: conc_inv_def)

lemma Close_concurrent_once:
  assumes "closed f = 0" "\<not> closeNotify f" "\<not> messagesClosed f"
  shows "\<exists>f' pcs'. conc_run e sched (f, replicate n BeforeCAS) = Returns (f', pcs')
           \<and> teardowns (trace f') \<le> teardowns (trace f) + 1"
proof -
  from conc_run_inv [OF conc_inv_initial [OF assms], of e sched n] obtain s' where
    s': "conc_run e sched (f, replicate n BeforeCAS) = Returns s'"
      "conc_inv (teardowns (trace f)) s'" by blast
  obtain f' pcs' where "s' = (f', pcs')" by (cases s')
  with s' conc_inv_bound show ?thesis by blast
qed

text \<open>
  C5. \<open>Close\<close> changes the flag \<open>closed\<close> only by the compare-and-swap from 0 to 1. The
  call that finds 0 sets 1 and performs the teardown (grace wait, close of both channels,
  flush, close of the file) and returns nil; a call that finds the flag set returns nil and
  changes nothing; with the flag at 1 \<open>Write\<close> returns at once and enqueues nothing. Over
  any sequence of calls of \<open>Write\<close> and \<open>Close\<close> the teardown is therefore performed at
  most once, and not at all once the flag is 1. The same holds when any number of
  goroutines are inside \<open>Close\<close> at once: under every schedule of their steps no step
  panics and the teardown is performed at most once.
\<close>

theorem Close_tears_down_once:
  assumes "channels_consistent f"
  shows "(closed f = 0 \<longrightarrow>
            (\<exists>f'. Close e f = Returns (None, f') \<and> closed f' = 1
                \<and> closeNotify f' \<and> messagesClosed f'
                \<and> trace f' = trace f @ teardown_events e f \<and> messages f' = messages f))
       \<and> (closed f \<noteq> 0 \<longrightarrow> Close e f = Returns (None, f))
       \<and> (closed f = 1 \<longrightarrow> Write f msg = Returns f)
       \<and> (\<forall>f'. run_calls e f cs = Returns f' \<longrightarrow>
             teardowns (trace f') \<le> teardowns (trace f) + (if closed f = 0 then 1 else 0)
             \<and> (closed f = 1 \<longrightarrow> f' = f))
       \<and> (closed f = 0 \<longrightarrow>
            (\<exists>f' pcs'. conc_run e sched (f, replicate n BeforeCAS) = Returns (f', pcs')
                \<and> teardowns (trace f') \<le> teardowns (trace f) + 1))"
proof (intro conjI impI allI)
  assume z: "closed f = 0"
  with assms have ch: "\<not> closeNotify f" "\<not> messagesClosed f"
    by (simp_all add: channels_consistent_def)
  from Close_concurrent_once [OF z ch]
  show "\<exists>f' pcs'. conc_run e sched (f, replicate n BeforeCAS) = Returns (f', pcs')
                \<and> teardowns (trace f') \<le> teardowns (trace f) + 1"
    by blast
next
  assume z: "closed f = 0"
  with assms have ch: "\<not> closeNotify f" "\<not> messagesClosed f"
    by (simp_all add: channels_consistent_def)
  from Close_first [OF z ch]
  show "\<exists>f'. Close e f = Returns (None, f') \<and> closed f' = 1
                \<and> closeNotify f' \<and> messagesClosed f'
                \<and> trace f' = trace f @ teardown_events e f \<and> messages f' = messages f"
    by blast
next
  assume "closed f \<noteq> 0"
  then show "Close e f = Returns (None, f)" by (rule Close_later)
next
  assume "closed f = 1"
  then show "Write f msg = Returns f" by (rule Write_closed)
next
  fix f' assume r: "run_calls e f cs = Returns f'"
  from run_calls_teardown [OF assms r]
  show "teardowns (trace f') \<le> teardowns (trace f) + (if closed f = 0 then 1 else 0)"
    by blast
next
  fix f' assume r: "run_calls e f cs = Returns f'" and one: "closed f = 1"
  from run_calls_teardown [OF assms r] one
  show "f' = f" by blast
qed

theorem Close_tears_down_once_witness:
  "(\<exists>f'. Close env0 sink0 = Returns (None, f') \<and> closed f' = 1
         \<and> trace f' = [EvSleepSecond, EvCloseChan ChCloseNotify, EvCloseChan ChMessages,
                        EvFileWrite ''logs/app-1.log'' [] 0, EvFileClose ''logs/app-1.log''])
   \<and> Close env0 (sink0\<lparr>closed := 1\<rparr>) = Returns (None, sink0\<lparr>closed := 1\<rparr>)
   \<and> Write (sink0\<lparr>closed := 1\<rparr>) (Some msg0) = Returns (sink0\<lparr>closed := 1\<rparr>)
   \<and> run_calls env0 (sink0\<lparr>closed := 1\<rparr>) [CallWrite (Some msg0), CallClose]
       = Returns (sink0\<lparr>closed := 1\<rparr>)
   \<and> (\<exists>f' pcs'. conc_run env0 [0, 1, 1, 0] (sink0, replicate 2 BeforeCAS) = Returns (f', pcs')
         \<and> teardowns (trace f') \<le> 1)"
proof -
  have c0: "channels_consistent sink0"
    by (simp add: channels_consistent_def sink0_def)
  have c1: "channels_consistent (sink0\<lparr>closed := 1\<rparr>)"
    by (simp add: channels_consistent_def)
  have r: "\<exists>g. run_calls env0 (sink0\<lparr>closed := 1\<rparr>) [CallWrite (Some msg0), CallClose] = Returns g"
    by (simp add: apply_call_def Write_def Close_def Close_cas_def)
  have t: "trace sink0 @ teardown_events env0 sink0 =
      [EvSleepSecond, EvCloseChan ChCloseNotify, EvCloseChan ChMessages,
       EvFileWrite ''logs/app-1.log'' [] 0, EvFileClose ''logs/app-1.log'']"
    by (simp add: teardown_events_def write_count_def sink0_def)
  have z: "closed sink0 = 0" by (simp add: sink0_def)
  from Close_tears_down_once
         [OF c0, where e = env0 and msg = "Some msg0" and cs = "[]" and sched = "[]" and n = 0] z t
  have first: "\<exists>f'. Close env0 sink0 = Returns (None, f') \<and> closed f' = 1
         \<and> trace f' = [EvSleepSecond, EvCloseChan ChCloseNotify, EvCloseChan ChMessages,
                        EvFileWrite ''logs/app-1.log'' [] 0, EvFileClose ''logs/app-1.log'']"
    by auto
  from Close_tears_down_once
         [OF c1, where e = env0 and msg = "Some msg0"
            and cs = "[CallWrite (Some msg0), CallClose]" and sched = "[]" and n = 0] r
  have later: "Close env0 (sink0\<lparr>closed := 1\<rparr>) = Returns (None, sink0\<lparr>closed := 1\<rparr>)
   \<and> Write (sink0\<lparr>closed := 1\<rparr>) (Some msg0) = Returns (sink0\<lparr>closed := 1\<rparr>)
   \<and> run_calls env0 (sink0\<lparr>closed := 1\<rparr>) [CallWrite (Some msg0), CallClose]
       = Returns (sink0\<lparr>closed := 1\<rparr>)"
    by auto
  have t0: "teardowns (trace sink0) = 0" by (simp add: teardowns_def sink0_def)
  from Close_tears_down_once
         [OF c0, where e = env0 and msg = "Some msg0" and cs = "[]" and sched = "[0, 1, 1, 0]"
            and n = 2] z t0
  have conc: "\<exists>f' pcs'. conc_run env0 [0, 1, 1, 0] (sink0, replicate 2 BeforeCAS) = Returns (f', pcs')
         \<and> teardowns (trace f') \<le> 1"
    by auto
  from first later conc show ?thesis by blast
qed


subsection \<open>compress and rotate\<close>

lemma compress_visit_Some:
  "\<exists>r evs. compress_visit e f p (Some d) err tr = Returns (r, tr @ evs) \<and> r \<noteq> Some SkipDir"
  by (simp add: compress_visit_def Let_def split: option.splits)

lemma walkDirs_compress_aux:
  assumes "\<And>t tr. t \<in> set ts \<Longrightarrow>
     \<exists>r evs. walkDir (compress_visit e f) t tr = Returns (r, tr @ evs) \<and> r \<noteq> Some SkipDir"
  shows "\<exists>r evs. walkDirs (compress_visit e f) ts tr = Returns (r, tr @ evs) \<and> r \<noteq> Some SkipDir"
  using assms
proof (induction ts arbitrary: tr)
  case Nil
  then show ?case by simp
next
  case (Cons t ts)
  from Cons.prems [of t tr] obtain r evs where
    t: "walkDir (compress_visit e f) t tr = Returns (r, tr @ evs)" "r \<noteq> Some SkipDir"
    by auto
  show ?case
  proof (cases r)
    case None
    from Cons.IH [of "tr @ evs"] Cons.prems obtain r2 evs2 where
      "walkDirs (compress_visit e f) ts (tr @ evs) = Returns (r2, (tr @ evs) @ evs2)" "r2 \<noteq> Some SkipDir"
      by (metis list.set_intros(2))
    with t None show ?thesis by simp
  next
    case (Some er)
    with t show ?thesis by simp
  qed
qed

lemma walkDir_compress:
  "\<exists>r evs. walkDir (compress_visit e f) t tr = Returns (r, tr @ evs) \<and> r \<noteq> Some SkipDir"
proof (induction t arbitrary: tr)
  case (Node p d re ts)
  obtain r1 evs1 where
    c1: "compress_visit e f p (Some d) None tr = Returns (r1, tr @ evs1)" "r1 \<noteq> Some SkipDir"
    using compress_visit_Some by blast
  show ?case
  proof (cases "r1 \<noteq> None \<or> \<not> IsDir d")
    case True
    with c1 show ?thesis by auto
  next
    case False
    obtain r2 evs2 where
      c2: "compress_visit e f p (Some d) (Some (ReadDirError p)) (tr @ evs1) = Returns (r2, (tr @ evs1) @ evs2)"
        "r2 \<noteq> Some SkipDir"
      using compress_visit_Some by blast
    from walkDirs_compress_aux [of ts e f] Node.IH
    have ws: "\<And>tr. \<exists>r evs. walkDirs (compress_visit e f) ts tr = Returns (r, tr @ evs) \<and> r \<noteq> Some SkipDir"
      by blast
    show ?thesis
    proof (cases re)
      case True
      from ws [of "(tr @ evs1) @ evs2"] obtain r3 evs3 where
        "walkDirs (compress_visit e f) ts ((tr @ evs1) @ evs2) = Returns (r3, ((tr @ evs1) @ evs2) @ evs3)"
        "r3 \<noteq> Some SkipDir" by blast
      with c1 c2 False True show ?thesis by (cases r2) auto
    next
      case nre: False
      from ws [of "tr @ evs1"] obtain r3 evs3 where
        "walkDirs (compress_visit e f) ts (tr @ evs1) = Returns (r3, (tr @ evs1) @ evs3)"
        "r3 \<noteq> Some SkipDir" by blast
      with c1 False nre show ?thesis by auto
    qed
  qed
qed

lemma walkDirs_compress:
  "\<exists>r evs. walkDirs (compress_visit e f) ts tr = Returns (r, tr @ evs) \<and> r \<noteq> Some SkipDir"
  using walkDirs_compress_aux walkDir_compress by blast

lemma compress_returns:
  assumes "Lstat e (path f) = Some t"
  shows "\<exists>r evs. compress e f = Returns (r, f\<lparr>trace := trace f @ evs\<rparr>) \<and> r \<noteq> Some SkipDir"
proof -
  obtain p d re ts where t: "t = Node p d re ts" by (cases t)
  from walkDir_compress [of e f "Node (path f) d re ts" "trace f"] obtain r evs where
    "walkDir (compress_visit e f) (Node (path f) d re ts) (trace f) = Returns (r, trace f @ evs)"
    "r \<noteq> Some SkipDir" by blast
  with assms t have "compress e f = Returns (r, f\<lparr>trace := trace f @ evs\<rparr>)"
    by (simp add: compress_def WalkDir_def del: walkDir.simps)
  with \<open>r \<noteq> Some SkipDir\<close> show ?thesis by blast
qed

lemma compress_panics:
  "Lstat e (path f) = None \<Longrightarrow> compress e f = Panics NilDereference"
  by (simp add: compress_def WalkDir_def compress_visit_def)

lemma walkDirs_compress_append:
  "walkDirs (compress_visit e f) (xs @ ys) tr =
     (case walkDirs (compress_visit e f) xs tr of
        Returns (r, tr1) \<Rightarrow>
          (case r of None \<Rightarrow> walkDirs (compress_visit e f) ys tr1
                   | Some er \<Rightarrow> Returns (Some er, tr1))
      | Panics pn \<Rightarrow> Panics pn
      | Blocks \<Rightarrow> Blocks)"
proof (induction xs arbitrary: tr)
  case Nil
  then show ?case by simp
next
  case (Cons x xs)
  obtain r evs where
    x: "walkDir (compress_visit e f) x tr = Returns (r, tr @ evs)" "r \<noteq> Some SkipDir"
    using walkDir_compress by blast
  show ?case
  proof (cases r)
    case None
    with x Cons.IH [of "tr @ evs"] show ?thesis by simp
  next
    case (Some er)
    with x show ?thesis by simp
  qed
qed


lemma write'_closed_handle:
  assumes "\<forall>h. file' f = Some h \<longrightarrow> fclosed h"
  shows "trace (write' e f m) = trace f"
  using assms
  by (cases m; cases "file' f")
    (simp_all add: write'_None write'_Some Let_def flush_to_def file_Write_def Format_fields)

lemma write'_static:
  "path (write' e f m) = path f" "format (write' e f m) = format f"
  "filename (write' e f m) = filename f"
  by (cases m; cases "file' f"; cases "formatter f";
      simp add: write'_None write'_Some Let_def flush_to_def Format_def split: prod.splits)+

lemma close_file_fields:
  "path (close_file f) = path f" "format (close_file f) = format f"
  "buf (close_file f) = buf f" "filename (close_file f) = filename f"
  "formatter (close_file f) = formatter f"
  "(file' (close_file f) = None) = (file' f = None)"
  "\<forall>h. file' (close_file f) = Some h \<longrightarrow> fclosed h"
  "trace (close_file f) = trace f @ (case file' f of Some h \<Rightarrow> [EvFileClose (fname h)] | None \<Rightarrow> [])"
  by (cases "file' f"; simp add: close_file_def)+

lemma call_format_cong:
  "path g = path f \<Longrightarrow> format g = format f \<Longrightarrow> call_format e g = call_format e f"
  by (simp add: call_format_def split: namefmt.splits)

lemma formatted_cong: "formatter g = formatter f \<Longrightarrow> formatted e g msg = formatted e f msg"
  by (simp add: formatted_def Format_def split: option.splits)

lemma rotate_after_compress:
  assumes c: "compress e (close_file f) = Returns (err, (close_file f)\<lparr>trace := tr\<rparr>)"
  shows "\<exists>f'. rotate e f =
            Returns (if fails e OpenFile (next_path e f)
                     then Some (SysError OpenFile (next_path e f)) else None, f')
     \<and> trace f' = tr @ (if fails e OpenFile (next_path e f) then [] else [open_event (next_path e f)])
     \<and> filesize f' = 0
     \<and> filename f' = next_filename e f
     \<and> path f' = path f
     \<and> file' f' = (if fails e OpenFile (next_path e f) then None
                   else Some \<lparr>fname = next_path e f, fclosed = False\<rparr>)
     \<and> buf f' = (case err of
                   None \<Rightarrow> buf f
                 | Some er \<Rightarrow>
                     (if defaultCacheSize \<le> length (formatted e f (error_message e er)) + length (buf f)
                         \<and> file' f \<noteq> None
                      then [] else buf f) @ formatted e f (error_message e er) @ [CHR 0x0A])"
proof -
  let ?f2 = "(close_file f)\<lparr>trace := tr\<rparr>"
  let ?f3 = "(case err of Some er \<Rightarrow> write' e ?f2 (Some (error_message e er)) | None \<Rightarrow> ?f2)"
  have closedh: "\<forall>h. file' ?f2 = Some h \<longrightarrow> fclosed h"
    using close_file_fields(7) [of f] by simp
  have tr3: "trace ?f3 = tr"
    using write'_closed_handle [OF closedh] by (cases err) simp_all
  have p3: "path ?f3 = path f" "format ?f3 = format f"
    by (cases err; simp add: write'_static close_file_fields)+
  have b3: "buf ?f3 = (case err of
                   None \<Rightarrow> buf f
                 | Some er \<Rightarrow>
                     (if defaultCacheSize \<le> length (formatted e f (error_message e er)) + length (buf f)
                         \<and> file' f \<noteq> None
                      then [] else buf f) @ formatted e f (error_message e er) @ [CHR 0x0A])"
  proof (cases err)
    case None
    then show ?thesis by (simp add: close_file_fields)
  next
    case (Some er)
    have "formatted e ?f2 (error_message e er) = formatted e f (error_message e er)"
      by (rule formatted_cong) (simp add: close_file_fields)
    with Some show ?thesis
      using close_file_fields(6) [of f]
      by (cases "file' f") (simp_all add: write'_buf_law close_file_fields)
  qed
  have cf: "call_format e (?f3\<lparr>filesize := 0\<rparr>) = call_format e f"
    by (rule call_format_cong) (simp_all add: p3)
  show ?thesis
    unfolding rotate_def Let_def c
    by (simp add: cf next_path_def next_filename_def tr3 p3 b3)
qed


lemma compress_visit_close_file: "compress_visit e (close_file f) = compress_visit e f"
  by (intro ext) (simp add: compress_visit_def close_file_fields cong: option.case_cong)

lemma compress_root:
  assumes "Lstat e (path f) = Some (Node p0 d0 re ts)" and "IsDir d0"
  shows "compress e f =
     (case walkDirs (compress_visit e f) ts (trace f) of
        Returns (r, tr) \<Rightarrow> Returns (r, f\<lparr>trace := tr\<rparr>)
      | Panics pn \<Rightarrow> Panics pn
      | Blocks \<Rightarrow> Blocks)"
proof -
  have v: "\<And>err tr. compress_visit e f (path f) (Some d0) err tr = Returns (None, tr)"
    using assms(2) by (simp add: compress_visit_def)
  obtain r evs where
    w: "walkDirs (compress_visit e f) ts (trace f) = Returns (r, trace f @ evs)" "r \<noteq> Some SkipDir"
    using walkDirs_compress by blast
  show ?thesis
    using assms w by (simp add: compress_def WalkDir_def v)
qed

text \<open>
  C2 (what the code does). In a directory with one rotated log file \<open>logs/a.log\<close> and no
  failing call, \<open>compress\<close> creates \<open>logs/a.tgz\<close>, writes the header with the name, the
  modification time and the size of the file, copies the file, and then removes
  \<open>logs/a.log\<close> before the deferred calls run: the tar writer is closed, the gzip writer
  flushed and closed, and the archive file closed only after the removal.
\<close>

theorem compress_removes_before_flush:
  "compress env_one sink0 =
     Returns (None, sink0\<lparr>trace :=
       [EvCreate ''logs/a.tgz'', EvOpen ''logs/a.log'',
        EvWriteHeader ''logs/a.tgz'' \<lparr>InfoName = ''a.log'', ModTime = 1, Size = 10\<rparr>,
        EvCopy ''logs/a.log'' ''logs/a.tgz'', EvRemove ''logs/a.log'',
        EvTarClose ''logs/a.tgz'', EvGzipFlush ''logs/a.tgz'', EvGzipClose ''logs/a.tgz'',
        EvFileClose ''logs/a.log'', EvFileClose ''logs/a.tgz'']\<rparr>)"
  by (simp add: compress_def WalkDir_def env_one_def env0_def logs_one_def file_node_def
      file_entry_def dir_entry_def compress_visit_def HasSuffix_def sink0_def Let_def)

text \<open>
  C3 as stated fails. With two rotated log files, \<open>logs/a.log\<close> and \<open>logs/b.log\<close>, and
  \<open>os.Create\<close> failing for \<open>logs/a.tgz\<close>, \<open>compress\<close> returns that error and has made
  no call for \<open>logs/b.log\<close>, although the callback would archive and remove it if it were
  visited.
\<close>

theorem compress_abort_counterexample:
  "compress env_two_fail sink0 = Returns (Some (SysError Create ''logs/a.tgz''), sink0)
   \<and> compress_visit env_two_fail sink0 ''logs/b.log'' (Some (file_entry ''b.log'' 3)) None [] =
       Returns (None,
         [EvCreate ''logs/b.tgz'', EvOpen ''logs/b.log'',
          EvWriteHeader ''logs/b.tgz'' \<lparr>InfoName = ''b.log'', ModTime = 3, Size = 10\<rparr>,
          EvCopy ''logs/b.log'' ''logs/b.tgz'', EvRemove ''logs/b.log'',
          EvTarClose ''logs/b.tgz'', EvGzipFlush ''logs/b.tgz'', EvGzipClose ''logs/b.tgz'',
          EvFileClose ''logs/b.log'', EvFileClose ''logs/b.tgz''])"
  by (simp add: compress_def WalkDir_def env_two_fail_def env0_def logs_two_def file_node_def
      file_entry_def dir_entry_def compress_visit_def HasSuffix_def sink0_def Let_def)

text \<open>
  C3, amended. When archiving one entry fails, the walk stops at that entry: whatever
  entries follow it in the directory, \<open>compress\<close> returns the error of that entry and the
  log of calls as it stood when the entry failed. \<open>rotate\<close> then writes that one error
  through \<open>write\<close> as a single message of level \<open>LevelError\<close> whose text is the text of the
  error, and goes on to open the new file; the error it returns is that of \<open>os.OpenFile\<close>
  alone.
\<close>

theorem compress_stops_at_first_error:
  assumes root: "Lstat e (path f) = Some (Node p0 d0 re (pre @ t # post))" and dir: "IsDir d0"
    and pre: "walkDirs (compress_visit e f) pre (trace (close_file f)) = Returns (None, tr1)"
    and bad: "walkDir (compress_visit e f) t tr1 = Returns (Some er, tr2)"
  shows "compress e (close_file f) = Returns (Some er, (close_file f)\<lparr>trace := tr2\<rparr>)
    \<and> (\<exists>f'. rotate e f =
              Returns (if fails e OpenFile (next_path e f)
                       then Some (SysError OpenFile (next_path e f)) else None, f')
          \<and> trace f' = tr2 @ (if fails e OpenFile (next_path e f) then []
                              else [open_event (next_path e f)])
          \<and> buf f' =
              (if defaultCacheSize \<le> length (formatted e f (error_message e er)) + length (buf f)
                  \<and> file' f \<noteq> None
               then [] else buf f) @ formatted e f (error_message e er) @ [CHR 0x0A])
    \<and> Level (error_message e er) = LevelError
    \<and> Message (error_message e er) = ErrorText e er"
proof -
  have ns: "er \<noteq> SkipDir"
    using walkDir_compress [of e f t tr1] bad by auto
  have "walkDirs (compress_visit e f) (pre @ t # post) (trace (close_file f)) =
          Returns (Some er, tr2)"
    using pre bad ns by (simp add: walkDirs_compress_append)
  moreover have "Lstat e (path (close_file f)) = Some (Node p0 d0 re (pre @ t # post))"
    using root by (simp add: close_file_fields)
  ultimately have c: "compress e (close_file f) = Returns (Some er, (close_file f)\<lparr>trace := tr2\<rparr>)"
    using compress_root [of e "close_file f", OF _ dir]
    by (simp add: compress_visit_close_file)
  from rotate_after_compress [OF c] c show ?thesis
    by (auto simp: error_message_def)
qed


theorem compress_stops_at_first_error_witness:
  "compress env_two_fail (close_file sink0) =
     Returns (Some (SysError Create ''logs/a.tgz''),
              (close_file sink0)\<lparr>trace := [EvFileClose ''logs/app-1.log'']\<rparr>)
   \<and> (\<exists>f'. rotate env_two_fail sink0 = Returns (None, f')
         \<and> trace f' = [EvFileClose ''logs/app-1.log'',
                        open_event ''logs/glog-2026-01-01T000000.log'']
         \<and> buf f' = ''error'' @ [CHR 0x0A])"
proof -
  have root: "Lstat env_two_fail (path sink0) =
      Some (Node ''logs'' (dir_entry ''logs'') False
         ([] @ file_node ''logs'' ''a.log'' 1 #
            [file_node ''logs'' ''app-1.log'' 2, file_node ''logs'' ''b.log'' 3]))"
    by (simp add: env_two_fail_def env0_def sink0_def logs_two_def)
  have dir: "IsDir (dir_entry ''logs'')" by (simp add: dir_entry_def)
  have pre: "walkDirs (compress_visit env_two_fail sink0) [] (trace (close_file sink0)) =
      Returns (None, [EvFileClose ''logs/app-1.log''])"
    by (simp add: close_file_def sink0_def)
  have bad: "walkDir (compress_visit env_two_fail sink0) (file_node ''logs'' ''a.log'' 1)
        [EvFileClose ''logs/app-1.log''] =
      Returns (Some (SysError Create ''logs/a.tgz''), [EvFileClose ''logs/app-1.log''])"
    by (simp add: file_node_def file_entry_def compress_visit_def HasSuffix_def sink0_def
        env_two_fail_def env0_def Let_def)
  have np: "next_path env_two_fail sink0 = ''logs/glog-2026-01-01T000000.log''"
    by (simp add: next_path_def next_filename_def call_format_def sink0_def env_two_fail_def
        env0_def)
  have nf: "\<not> fails env_two_fail OpenFile ''logs/glog-2026-01-01T000000.log''"
    by (simp add: env_two_fail_def env0_def)
  have fm: "formatted env_two_fail sink0
             (error_message env_two_fail (SysError Create ''logs/a.tgz'')) = ''error''"
    by (simp add: formatted_def Format_def sink0_def error_message_def env_two_fail_def env0_def)
  have bf: "buf sink0 = []" by (simp add: sink0_def)
  from compress_stops_at_first_error [OF root dir pre bad]
  show ?thesis
    by (simp add: np nf fm bf defaultCacheSize_def)
qed

text \<open>
  The steps of \<open>rotate\<close> on a directory that \<open>os.Lstat\<close> can read. It closes the current
  file if there is one, then runs \<open>compress\<close> on the directory; an error of \<open>compress\<close> is
  written through \<open>write\<close> as a message of level \<open>LevelError\<close> and is not returned. Then the
  byte counter is zero, the name is the one the naming policy gives, or the default name
  when the policy gives the empty string, and last the file \<open>path/name\<close> is opened
  write-only, in append mode, created if missing. The error \<open>rotate\<close> returns is that of
  this \<open>os.OpenFile\<close> alone.
\<close>

lemma rotate_sequence:
  assumes "Lstat e (path f) = Some t"
  shows "\<exists>err evs f'.
      compress e (close_file f) =
        Returns (err, (close_file f)\<lparr>trace := trace (close_file f) @ evs\<rparr>)
    \<and> rotate e f =
        Returns (if fails e OpenFile (next_path e f)
                 then Some (SysError OpenFile (next_path e f)) else None, f')
    \<and> trace f' =
        trace f @ (case file' f of Some h \<Rightarrow> [EvFileClose (fname h)] | None \<Rightarrow> [])
        @ evs
        @ (if fails e OpenFile (next_path e f) then []
           else [EvOpenFile (next_path e f) [O_WRONLY, O_APPEND, O_CREATE] 432])
    \<and> buf f' =
        (case err of
           None \<Rightarrow> buf f
         | Some er \<Rightarrow>
             (if defaultCacheSize \<le> length (formatted e f (error_message e er)) + length (buf f)
                 \<and> file' f \<noteq> None
              then [] else buf f) @ formatted e f (error_message e er) @ [CHR 0x0A])
    \<and> (\<forall>er. Level (error_message e er) = LevelError)
    \<and> filesize f' = 0
    \<and> filename f' = next_filename e f
    \<and> next_filename e f =
        (if call_format e f = [] then defaultFnFormatter e else call_format e f)
    \<and> next_path e f = path f @ ''/'' @ next_filename e f
    \<and> file' f' =
        (if fails e OpenFile (next_path e f) then None
         else Some \<lparr>fname = next_path e f, fclosed = False\<rparr>)"
proof -
  have "Lstat e (path (close_file f)) = Some t"
    using assms by (simp add: close_file_fields)
  from compress_returns [OF this] obtain err evs where
    c: "compress e (close_file f) =
          Returns (err, (close_file f)\<lparr>trace := trace (close_file f) @ evs\<rparr>)"
    by blast
  from rotate_after_compress [OF c] obtain f' where
    r: "rotate e f =
            Returns (if fails e OpenFile (next_path e f)
                     then Some (SysError OpenFile (next_path e f)) else None, f')"
     "trace f' = (trace (close_file f) @ evs)
          @ (if fails e OpenFile (next_path e f) then [] else [open_event (next_path e f)])"
     "filesize f' = 0" "filename f' = next_filename e f"
     "file' f' = (if fails e OpenFile (next_path e f) then None
                   else Some \<lparr>fname = next_path e f, fclosed = False\<rparr>)"
     "buf f' = (case err of
                   None \<Rightarrow> buf f
                 | Some er \<Rightarrow>
                     (if defaultCacheSize \<le> length (formatted e f (error_message e er)) + length (buf f)
                         \<and> file' f \<noteq> None
                      then [] else buf f) @ formatted e f (error_message e er) @ [CHR 0x0A])"
    by blast
  have t: "trace f' =
        trace f @ (case file' f of Some h \<Rightarrow> [EvFileClose (fname h)] | None \<Rightarrow> [])
        @ evs
        @ (if fails e OpenFile (next_path e f) then []
           else [EvOpenFile (next_path e f) [O_WRONLY, O_APPEND, O_CREATE] 432])"
    using r(2) by (simp add: close_file_fields open_event_def)
  have l: "\<forall>er. Level (error_message e er) = LevelError"
    by (simp add: error_message_def)
  from c r(1) t r(6) l r(3) r(4) r(5) show ?thesis
    by (intro exI [of _ err] exI [of _ evs] exI [of _ f'])
      (simp add: next_filename_def next_path_def)
qed

lemma rotate_sequence_example:
  "\<exists>f'. rotate env_one sink0 = Returns (None, f')
     \<and> trace f' =
        [EvFileClose ''logs/app-1.log'',
         EvCreate ''logs/a.tgz'', EvOpen ''logs/a.log'',
         EvWriteHeader ''logs/a.tgz'' \<lparr>InfoName = ''a.log'', ModTime = 1, Size = 10\<rparr>,
         EvCopy ''logs/a.log'' ''logs/a.tgz'', EvRemove ''logs/a.log'',
         EvTarClose ''logs/a.tgz'', EvGzipFlush ''logs/a.tgz'', EvGzipClose ''logs/a.tgz'',
         EvFileClose ''logs/a.log'', EvFileClose ''logs/a.tgz'',
         EvOpenFile ''logs/glog-2026-01-01T000000.log'' [O_WRONLY, O_APPEND, O_CREATE] 432]
     \<and> filesize f' = 0
     \<and> filename f' = ''glog-2026-01-01T000000.log''"
proof -
  have ls: "Lstat env_one (path sink0) = Some logs_one"
    by (simp add: env_one_def env0_def sink0_def)
  have c: "compress env_one (close_file sink0) =
     Returns (None, (close_file sink0)\<lparr>trace :=
       [EvFileClose ''logs/app-1.log'',
        EvCreate ''logs/a.tgz'', EvOpen ''logs/a.log'',
        EvWriteHeader ''logs/a.tgz'' \<lparr>InfoName = ''a.log'', ModTime = 1, Size = 10\<rparr>,
        EvCopy ''logs/a.log'' ''logs/a.tgz'', EvRemove ''logs/a.log'',
        EvTarClose ''logs/a.tgz'', EvGzipFlush ''logs/a.tgz'', EvGzipClose ''logs/a.tgz'',
        EvFileClose ''logs/a.log'', EvFileClose ''logs/a.tgz'']\<rparr>)"
    by (simp add: compress_def WalkDir_def env_one_def env0_def logs_one_def file_node_def
      file_entry_def dir_entry_def compress_visit_def HasSuffix_def sink0_def Let_def
      close_file_def)
  have np: "next_path env_one sink0 = ''logs/glog-2026-01-01T000000.log''"
    "next_filename env_one sink0 = ''glog-2026-01-01T000000.log''"
    by (simp_all add: next_path_def next_filename_def call_format_def sink0_def env_one_def
        env0_def)
  have nf: "\<not> fails env_one OpenFile ''logs/glog-2026-01-01T000000.log''"
    by (simp add: env_one_def env0_def)
  have tc: "trace (close_file sink0) = [EvFileClose ''logs/app-1.log'']"
    "trace sink0 = []" "file' sink0 = Some \<lparr>fname = ''logs/app-1.log'', fclosed = False\<rparr>"
    by (simp_all add: close_file_def sink0_def)
  from rotate_sequence [OF ls] obtain err evs f' where
    r: "compress env_one (close_file sink0) =
        Returns (err, (close_file sink0)\<lparr>trace := trace (close_file sink0) @ evs\<rparr>)"
     "rotate env_one sink0 = Returns (None, f')"
     "trace f' = [EvFileClose ''logs/app-1.log''] @ evs
        @ [EvOpenFile ''logs/glog-2026-01-01T000000.log'' [O_WRONLY, O_APPEND, O_CREATE] 432]"
     "filesize f' = 0" "filename f' = ''glog-2026-01-01T000000.log''"
    by (auto simp: np nf tc)
  from r(1) c have "trace ((close_file sink0)\<lparr>trace := trace (close_file sink0) @ evs\<rparr>) =
      trace ((close_file sink0)\<lparr>trace :=
       [EvFileClose ''logs/app-1.log'',
        EvCreate ''logs/a.tgz'', EvOpen ''logs/a.log'',
        EvWriteHeader ''logs/a.tgz'' \<lparr>InfoName = ''a.log'', ModTime = 1, Size = 10\<rparr>,
        EvCopy ''logs/a.log'' ''logs/a.tgz'', EvRemove ''logs/a.log'',
        EvTarClose ''logs/a.tgz'', EvGzipFlush ''logs/a.tgz'', EvGzipClose ''logs/a.tgz'',
        EvFileClose ''logs/a.log'', EvFileClose ''logs/a.tgz'']\<rparr>)"
    by simp
  then have "evs = [EvCreate ''logs/a.tgz'', EvOpen ''logs/a.log'',
        EvWriteHeader ''logs/a.tgz'' \<lparr>InfoName = ''a.log'', ModTime = 1, Size = 10\<rparr>,
        EvCopy ''logs/a.log'' ''logs/a.tgz'', EvRemove ''logs/a.log'',
        EvTarClose ''logs/a.tgz'', EvGzipFlush ''logs/a.tgz'', EvGzipClose ''logs/a.tgz'',
        EvFileClose ''logs/a.log'', EvFileClose ''logs/a.tgz'']"
    by (simp add: tc)
  with r show ?thesis by simp
qed

text \<open>On a directory that \<open>os.Lstat\<close> cannot read, the walk hands the callback of
  \<open>compress\<close> a nil entry and the error, and the callback dereferences the entry.\<close>

lemma rotate_panics:
  "Lstat e (path f) = None \<Longrightarrow> rotate e f = Panics NilDereference"
  using compress_panics [of e "close_file f"]
  by (simp add: rotate_def close_file_fields)

text \<open>
  C6. \<open>rotate\<close> is to close the current file, run \<open>compress\<close> on the directory and log
  its failure through the sink, reset the byte counter, compute the next name and open
  the new file. It does not do so when \<open>os.Lstat\<close> cannot read the log directory (the
  directory is gone, or \<open>os.MkdirAll\<close>, whose error \<open>NewFileLogger\<close> drops, could not
  make it): \<open>filepath.WalkDir\<close> then calls the callback of \<open>compress\<close> with a nil entry
  and the error, and the callback calls \<open>d.IsDir()\<close> without testing the error. With the
  file \<open>logs/app-1.log\<close> open, \<open>rotate\<close> closes it and panics: the failure of the Archiver
  is neither logged nor returned, the counter is not reset and no file is opened, and the
  tick of the background loop that called \<open>rotate\<close> panics with it. On the same directory
  the callback of \<open>sweep\<close>, which tests the error first, returns.
\<close>

theorem rotate_panics_on_unreadable_directory:
  "Lstat env0 (path sink0) = None
   \<and> trace (close_file sink0) = [EvFileClose ''logs/app-1.log'']
   \<and> compress env0 (close_file sink0) = Panics NilDereference
   \<and> rotate env0 sink0 = Panics NilDereference
   \<and> rotation_due sink_due (0 + Minute)
   \<and> run_step env0 Tick (sink_due, 0) = Panics NilDereference
   \<and> sweep env0 sink0 = Returns []"
proof -
  have ls: "Lstat env0 (path sink0) = None" "Lstat env0 (path (close_file sink0)) = None"
    "Lstat env0 (path sink_due) = None"
    by (simp_all add: env0_def close_file_fields sink_due_def)
  have tc: "trace (close_file sink0) = [EvFileClose ''logs/app-1.log'']"
    by (simp add: close_file_def sink0_def)
  have du: "rotation_due sink_due (0 + Minute)"
    by (simp add: rotation_due_def sink_due_def sink0_def RotateByDuration_def)
  have st: "run_step env0 Tick (sink_due, 0) = Panics NilDereference"
    using du rotate_panics [OF ls(3)] by (simp add: run_step_def Let_def)
  have sw: "sweep env0 sink0 = Returns []"
    by (simp add: sweep_def WalkDir_def sweep_visit_def Let_def ls(1)) (simp add: sink0_def)
  from ls(1) tc compress_panics [OF ls(2)] rotate_panics [OF ls(1)] du st sw
  show ?thesis by blast
qed

lemma write'_events:
  "\<exists>evs. trace (write' e f m) = trace f @ evs \<and> (\<forall>ev \<in> set evs. \<exists>n b c. ev = EvFileWrite n b c)"
  by (cases m; cases "file' f")
    (simp_all add: write'_None write'_Some Let_def flush_to_def file_Write_def Format_fields)

lemma rotate_returns:
  assumes "Lstat e (path f) = Some t"
  shows "\<exists>r f1. rotate e f = Returns (r, f1)"
proof -
  have "Lstat e (path (close_file f)) = Some t"
    using assms by (simp add: close_file_fields)
  from compress_returns [OF this] obtain err evs where
    c: "compress e (close_file f) =
          Returns (err, (close_file f)\<lparr>trace := trace (close_file f) @ evs\<rparr>)"
    by blast
  from rotate_after_compress [OF c] show ?thesis by blast
qed

text \<open>
  C8. A message handled by the loop is written and nothing else: the file name and the
  handle stay, and the only calls made are writes to the file. The close signal ends the
  loop. A tick advances the counter by one minute; if the rotation test fails on the
  advanced counter nothing else happens, and if it holds the step is \<open>rotate\<close>, after
  which the counter is zero and the sweep is started as the last call. The test is: policy
  \<open>RotateBySize\<close> and \<open>filesize\<close> at least \<open>rotateFileSize\<close>, or policy
  \<open>RotateByDuration\<close> and the advanced counter at least \<open>rotateDuration\<close>, both compared
  as signed 64-bit numbers. Whenever the directory can be read, \<open>rotate\<close> returns.
\<close>

theorem rotation_at_ticks_only:
  "run_step e (Received m) (f, elapse) = Returns (True, write' e f m, elapse)
   \<and> filename (write' e f m) = filename f \<and> file' (write' e f m) = file' f
   \<and> (\<exists>evs. trace (write' e f m) = trace f @ evs
         \<and> (\<forall>ev \<in> set evs. \<exists>n b c. ev = EvFileWrite n b c))
   \<and> run_step e CloseNotified (f, elapse) = Returns (False, f, elapse)
   \<and> (\<not> rotation_due f (elapse + Minute) \<longrightarrow>
        run_step e Tick (f, elapse) = Returns (True, f, elapse + Minute))
   \<and> (rotation_due f (elapse + Minute) \<longrightarrow>
        run_step e Tick (f, elapse) =
          (case rotate e f of
             Returns (r, f1) \<Rightarrow> Returns (True, f1\<lparr>trace := trace f1 @ [EvGoSweep]\<rparr>, 0)
           | Panics pn \<Rightarrow> Panics pn
           | Blocks \<Rightarrow> Blocks))
   \<and> (rotation_due f (elapse + Minute) \<and> Lstat e (path f) \<noteq> None \<longrightarrow>
        (\<exists>r f1. rotate e f = Returns (r, f1)
           \<and> run_step e Tick (f, elapse) =
               Returns (True, f1\<lparr>trace := trace f1 @ [EvGoSweep]\<rparr>, 0)))
   \<and> rotation_due f (elapse + Minute) =
        ((rotatePolicy f = RotateBySize \<and> sint (rotateFileSize f) \<le> sint (filesize f))
         \<or> (rotatePolicy f = RotateByDuration
             \<and> sint (rotateDuration f) \<le> sint (elapse + Minute)))
   \<and> Minute = 60000000000"
proof -
  have a: "run_step e (Received m) (f, elapse) = Returns (True, write' e f m, elapse)"
    "run_step e CloseNotified (f, elapse) = Returns (False, f, elapse)"
    by (simp_all add: run_step_def)
  have b: "\<not> rotation_due f (elapse + Minute) \<longrightarrow>
        run_step e Tick (f, elapse) = Returns (True, f, elapse + Minute)"
    by (simp add: run_step_def Let_def)
  have c: "rotation_due f (elapse + Minute) \<longrightarrow>
        run_step e Tick (f, elapse) =
          (case rotate e f of
             Returns (r, f1) \<Rightarrow> Returns (True, f1\<lparr>trace := trace f1 @ [EvGoSweep]\<rparr>, 0)
           | Panics pn \<Rightarrow> Panics pn
           | Blocks \<Rightarrow> Blocks)"
    by (simp add: run_step_def Let_def split: go.splits)
  have d: "rotation_due f (elapse + Minute) \<and> Lstat e (path f) \<noteq> None \<longrightarrow>
        (\<exists>r f1. rotate e f = Returns (r, f1)
           \<and> run_step e Tick (f, elapse) =
               Returns (True, f1\<lparr>trace := trace f1 @ [EvGoSweep]\<rparr>, 0))"
  proof
    assume h: "rotation_due f (elapse + Minute) \<and> Lstat e (path f) \<noteq> None"
    then obtain t where "Lstat e (path f) = Some t" by auto
    from rotate_returns [OF this] obtain r f1 where r: "rotate e f = Returns (r, f1)" by blast
    with h c show "\<exists>r f1. rotate e f = Returns (r, f1)
           \<and> run_step e Tick (f, elapse) =
               Returns (True, f1\<lparr>trace := trace f1 @ [EvGoSweep]\<rparr>, 0)"
      by simp
  qed
  have g: "Minute = 60000000000" by (simp add: Minute_def)
  from a b c d g write'_events [of e f m] write'_file' [of e f m] write'_static(3) [of e f m]
  show ?thesis
    by (simp add: rotation_due_def)
qed

theorem rotation_at_ticks_only_witness:
  "run_step env_one Tick (sink0, 0) = Returns (True, sink0, Minute)
   \<and> (\<exists>r f1. rotate env_one sink_due = Returns (r, f1)
        \<and> run_step env_one Tick (sink_due, 0) =
            Returns (True, f1\<lparr>trace := trace f1 @ [EvGoSweep]\<rparr>, 0))"
proof -
  have nd: "\<not> rotation_due sink0 (0 + Minute)"
    by (simp add: rotation_due_def sink0_def Minute_def RotateByDuration_def RotateBySize_def)
  have du: "rotation_due sink_due (0 + Minute)"
    by (simp add: rotation_due_def sink_due_def sink0_def RotateByDuration_def)
  have ls: "Lstat env_one (path sink_due) \<noteq> None"
    by (simp add: env_one_def env0_def sink_due_def sink0_def)
  from rotation_at_ticks_only [of env_one None sink0 0]
  have "\<not> rotation_due sink0 (0 + Minute) \<longrightarrow>
        run_step env_one Tick (sink0, 0) = Returns (True, sink0, 0 + Minute)"
    by blast
  with nd have t1: "run_step env_one Tick (sink0, 0) = Returns (True, sink0, Minute)"
    by simp
  from rotation_at_ticks_only [of env_one None sink_due 0]
  have "rotation_due sink_due (0 + Minute) \<and> Lstat env_one (path sink_due) \<noteq> None \<longrightarrow>
        (\<exists>r f1. rotate env_one sink_due = Returns (r, f1)
           \<and> run_step env_one Tick (sink_due, 0) =
               Returns (True, f1\<lparr>trace := trace f1 @ [EvGoSweep]\<rparr>, 0))"
    by blast
  with du ls t1 show ?thesis by blast
qed


subsection \<open>sweep\<close>






lemma Swap_mset: "i < length bts \<Longrightarrow> j < length bts \<Longrightarrow> mset (Swap bts i j) = mset bts"
  by (simp add: Swap_def mset_swap)

lemma Swap_length: "length (Swap bts i j) = length bts"
  by (simp add: Swap_def)

lemma insertion_inner_mset: "j < length bts \<Longrightarrow> mset (insertion_inner bts j) = mset bts"
proof (induction bts j rule: insertion_inner.induct)
  case (1 bts)
  then show ?case by simp
next
  case (2 bts j)
  then show ?case by (simp add: Swap_mset Swap_length)
qed

lemma insertion_inner_length: "length (insertion_inner bts j) = length bts"
  by (induction bts j rule: insertion_inner.induct) (simp_all add: Swap_length)

lemma foldl_insertion_mset:
  "\<forall>j \<in> set js. j < length bts \<Longrightarrow> mset (foldl insertion_inner bts js) = mset bts"
  by (induction js arbitrary: bts) (simp_all add: insertion_inner_mset insertion_inner_length)

lemma insertionSort_mset: "mset (insertionSort bts) = mset bts"
  by (simp add: insertionSort_def Len_def foldl_insertion_mset)

lemma stamp_Swap:
  "Suc k < length bts \<Longrightarrow>
     stamp (Swap bts (Suc k) k) i =
       (if i = k then stamp bts (Suc k) else if i = Suc k then stamp bts k else stamp bts i)"
  by (simp add: stamp_def Swap_def nth_list_update)

lemma moving_Swap:
  assumes m: "moving bts (Suc k) j" and less: "stamp bts k < stamp bts (Suc k)"
    and len: "Suc k \<le> j" "j < length bts"
  shows "moving (Swap bts (Suc k) k) k j"
proof -
  have sk: "Suc k < length bts" using len by simp
  from m have p1: "\<And>a b. b \<le> j \<Longrightarrow> a < b \<Longrightarrow> a \<noteq> Suc k \<Longrightarrow> b \<noteq> Suc k \<Longrightarrow> stamp bts b \<le> stamp bts a"
    and p2: "\<And>b. Suc k < b \<Longrightarrow> b \<le> j \<Longrightarrow> stamp bts b \<le> stamp bts (Suc k)"
    by (auto simp: moving_def)
  show ?thesis
    unfolding moving_def
  proof (intro conjI allI impI)
    fix b a assume b: "b \<le> j" and a: "a < b" and ne: "a \<noteq> k \<and> b \<noteq> k"
    show "stamp (Swap bts (Suc k) k) b \<le> stamp (Swap bts (Suc k) k) a"
    proof (cases "a = Suc k")
      case True
      then have "Suc k < b" using a by simp
      with p1 [of b k] b have "stamp bts b \<le> stamp bts k" by simp
      with True a ne show ?thesis by (simp add: stamp_Swap [OF sk])
    next
      case False
      show ?thesis
      proof (cases "b = Suc k")
        case True
        with a ne have "a < k" by simp
        with p1 [of k a] len have "stamp bts k \<le> stamp bts a" by simp
        with True ne False show ?thesis by (simp add: stamp_Swap [OF sk])
      next
        case nb: False
        with p1 [of b a] b a False have "stamp bts b \<le> stamp bts a" by simp
        with ne False nb show ?thesis by (simp add: stamp_Swap [OF sk])
      qed
    qed
  next
    fix b assume b: "k < b \<and> b \<le> j"
    show "stamp (Swap bts (Suc k) k) b \<le> stamp (Swap bts (Suc k) k) k"
    proof (cases "b = Suc k")
      case True
      with less show ?thesis by (simp add: stamp_Swap [OF sk])
    next
      case False
      with b have "Suc k < b" by simp
      with p2 [of b] b have "stamp bts b \<le> stamp bts (Suc k)" by simp
      with False b show ?thesis by (simp add: stamp_Swap [OF sk])
    qed
  qed
qed

lemma insertion_inner_sorted:
  "moving bts k j \<Longrightarrow> k \<le> j \<Longrightarrow> j < length bts \<Longrightarrow> desc_upto (insertion_inner bts k) (Suc j)"
proof (induction bts k rule: insertion_inner.induct)
  case (1 bts)
  then have p1: "\<And>a b. b \<le> j \<Longrightarrow> a < b \<Longrightarrow> a \<noteq> 0 \<Longrightarrow> b \<noteq> 0 \<Longrightarrow> stamp bts b \<le> stamp bts a"
    and p2: "\<And>b. 0 < b \<Longrightarrow> b \<le> j \<Longrightarrow> stamp bts b \<le> stamp bts 0"
    by (auto simp: moving_def)
  have "\<forall>b < Suc j. \<forall>a < b. stamp bts b \<le> stamp bts a"
  proof (intro allI impI)
    fix b a assume "b < Suc j" "a < b"
    then show "stamp bts b \<le> stamp bts a"
      using p1 [of b a] p2 [of b] by (cases "a = 0") auto
  qed
  then show ?case by (simp add: desc_upto_def)
next
  case (2 bts k)
  show ?case
  proof (cases "Less bts (Suc k) k")
    case True
    then have less: "stamp bts k < stamp bts (Suc k)" by (simp add: Less_def stamp_def)
    from moving_Swap [OF "2.prems"(1) less "2.prems"(2,3)]
    have "moving (Swap bts (Suc k) k) k j" .
    from "2.IH" [OF True this] "2.prems" True show ?thesis
      by (simp add: Swap_length)
  next
    case False
    then have le: "stamp bts (Suc k) \<le> stamp bts k" by (simp add: Less_def stamp_def)
    from "2.prems"(1) have
      p1: "\<And>a b. b \<le> j \<Longrightarrow> a < b \<Longrightarrow> a \<noteq> Suc k \<Longrightarrow> b \<noteq> Suc k \<Longrightarrow> stamp bts b \<le> stamp bts a"
      and p2: "\<And>b. Suc k < b \<Longrightarrow> b \<le> j \<Longrightarrow> stamp bts b \<le> stamp bts (Suc k)"
      by (auto simp: moving_def)
    have "\<forall>b < Suc j. \<forall>a < b. stamp bts b \<le> stamp bts a"
    proof (intro allI impI)
      fix b a assume b: "b < Suc j" and a: "a < b"
      show "stamp bts b \<le> stamp bts a"
      proof (cases "a = Suc k")
        case True
        with a b p2 [of b] show ?thesis by simp
      next
        case na: False
        show ?thesis
        proof (cases "b = Suc k")
          case True
          show ?thesis
          proof (cases "a = k")
            case True
            with \<open>b = Suc k\<close> le show ?thesis by simp
          next
            case False
            with True a have "a < k" by simp
            with p1 [of k a] "2.prems"(2) have "stamp bts k \<le> stamp bts a" by simp
            with le True show ?thesis by simp
          qed
        next
          case False
          with p1 [of b a] a b na show ?thesis by simp
        qed
      qed
    qed
    with False show ?thesis by (simp add: desc_upto_def)
  qed
qed

lemma desc_upto_moving:
  "desc_upto bts j \<Longrightarrow> moving bts j j"
  by (auto simp: desc_upto_def moving_def)

lemma insertion_step_sorted:
  "desc_upto bts j \<Longrightarrow> j < length bts \<Longrightarrow> desc_upto (insertion_inner bts j) (Suc j)"
  by (rule insertion_inner_sorted [OF desc_upto_moving]) simp_all

lemma foldl_insertion_sorted:
  "desc_upto bts i \<Longrightarrow> i + n \<le> length bts \<Longrightarrow>
     desc_upto (foldl insertion_inner bts [i ..< i + n]) (i + n)"
proof (induction n arbitrary: bts i)
  case 0
  then show ?case by simp
next
  case (Suc n)
  have "desc_upto (insertion_inner bts i) (Suc i)"
    using Suc.prems by (intro insertion_step_sorted) simp_all
  from Suc.IH [OF this] Suc.prems
  have "desc_upto (foldl insertion_inner (insertion_inner bts i) [Suc i ..< Suc i + n]) (Suc i + n)"
    by (simp add: insertion_inner_length)
  moreover have "[i ..< i + Suc n] = i # [Suc i ..< Suc i + n]"
    by (simp add: upt_rec)
  ultimately show ?case by simp
qed

lemma insertionSort_sorted:
  "\<forall>j < length (insertionSort bts). \<forall>i < j. \<not> Less (insertionSort bts) j i"
proof (cases bts)
  case Nil
  then show ?thesis by (simp add: insertionSort_def Len_def)
next
  case (Cons x xs)
  have "desc_upto bts 1" by (simp add: desc_upto_def)
  from foldl_insertion_sorted [OF this, of "length bts - 1"] Cons
  have "desc_upto (insertionSort bts) (length bts)"
    by (simp add: insertionSort_def Len_def)
  moreover have "length (insertionSort bts) = length bts"
    using insertionSort_mset [of bts] by (rule mset_eq_length)
  ultimately show ?thesis
    by (simp add: desc_upto_def Less_def stamp_def not_less)
qed

lemma insertionSort_sorts:
  "mset (insertionSort bts) = mset bts
   \<and> (\<forall>j < length (insertionSort bts). \<forall>i < j. \<not> Less (insertionSort bts) j i)"
  using insertionSort_mset insertionSort_sorted by blast













end
